theory Spec2Isabelle
  imports Complex_Main "HOL-Library.AList"
begin

section \<open>Python runtime: exceptions and insertion-ordered dictionaries\<close>

text \<open>
  The exceptions the cache policies can raise. A call that raises ends the run: its
  result is \<open>Inl\<close> of the exception and the half-updated object is not observed again.
\<close>

datatype error = KeyError | StopIteration | ZeroDivisionError

definition bindE :: "error + 'a \<Rightarrow> ('a \<Rightarrow> error + 'b) \<Rightarrow> error + 'b" where
  "bindE m f = (case m of Inl e \<Rightarrow> Inl e | Inr x \<Rightarrow> f x)"

text \<open>
  An \<open>OrderedDict\<close> whose values are all \<open>True\<close> is an ordered set: the list of its keys,
  oldest first. \<open>d[k] = True\<close> appends a new key and leaves an existing key in place;
  \<open>del d[k]\<close> and \<open>move_to_end(k)\<close> raise \<open>KeyError\<close> on a missing key;
  \<open>popitem(last=False)\<close> raises \<open>KeyError\<close> on an empty dictionary.
\<close>

definition od_setitem :: "int \<Rightarrow> int list \<Rightarrow> int list" where
  "od_setitem k d = (if k \<in> set d then d else d @ [k])"

definition od_delitem :: "int \<Rightarrow> int list \<Rightarrow> error + int list" where
  "od_delitem k d = (if k \<in> set d then Inr (remove1 k d) else Inl KeyError)"

definition od_move_to_end :: "int \<Rightarrow> int list \<Rightarrow> error + int list" where
  "od_move_to_end k d = (if k \<in> set d then Inr (remove1 k d @ [k]) else Inl KeyError)"

definition od_popitem_first :: "int list \<Rightarrow> error + (int \<times> int list)" where
  "od_popitem_first d = (case d of [] \<Rightarrow> Inl KeyError | x # xs \<Rightarrow> Inr (x, xs))"

text \<open>
  A plain \<open>dict\<close> with values is an association list in insertion order:
  \<open>d[k] = v\<close> is \<^const>\<open>AList.update\<close> (overwrite in place, or append), and
  \<open>d[k]\<close>, \<open>del d[k]\<close> raise \<open>KeyError\<close> on a missing key.
\<close>

definition dict_keys :: "('k \<times> 'v) list \<Rightarrow> 'k list" where
  "dict_keys d = map fst d"

definition dict_getitem :: "('k \<times> 'v) list \<Rightarrow> 'k \<Rightarrow> error + 'v" where
  "dict_getitem d k = (case map_of d k of None \<Rightarrow> Inl KeyError | Some v \<Rightarrow> Inr v)"

definition dict_delitem :: "'k \<Rightarrow> ('k \<times> 'v) list \<Rightarrow> error + ('k \<times> 'v) list" where
  "dict_delitem k d = (if k \<in> set (dict_keys d) then Inr (AList.delete k d) else Inl KeyError)"

section \<open>cache\_base.py: the common policy state\<close>

record CachePolicy =
  capacity :: int
  hits :: int
  misses :: int
  time :: int

text \<open>
  \<open>get_hit_ratio\<close>: Python's true division raises \<open>ZeroDivisionError\<close> on a zero
  divisor; the float quotient is idealised as the real quotient.
\<close>

definition py_truediv :: "int \<Rightarrow> int \<Rightarrow> error + real" where
  "py_truediv a b = (if b = 0 then Inl ZeroDivisionError else Inr (real_of_int a / real_of_int b))"

definition get_hit_ratio :: "'a CachePolicy_scheme \<Rightarrow> error + real" where
  "get_hit_ratio s =
     (let total = hits s + misses s in
      if total > 0 then py_truediv (hits s) total else Inr 0)"

definition get_stats :: "'a CachePolicy_scheme \<Rightarrow> error + (int \<times> int \<times> real)" where
  "get_stats s = bindE (get_hit_ratio s) (\<lambda>r. Inr (hits s, misses s, r))"

section \<open>cache\_lru.py\<close>

record LRUCache = CachePolicy +
  lru_cache :: "int list"

definition LRU_init :: "int \<Rightarrow> LRUCache" where
  "LRU_init cap = \<lparr>capacity = cap, hits = 0, misses = 0, time = 0, lru_cache = []\<rparr>"

definition LRU_access :: "LRUCache \<Rightarrow> int \<Rightarrow> error + (bool \<times> LRUCache)" where
  "LRU_access s0 item =
    (let s = s0\<lparr>time := time s0 + 1\<rparr> in
     if item \<in> set (lru_cache s) then
       bindE (od_move_to_end item (lru_cache s)) (\<lambda>c'.
         Inr (True, s\<lparr>lru_cache := c', hits := hits s + 1\<rparr>))
     else
       let s = s\<lparr>misses := misses s + 1\<rparr> in
       bindE (if int (length (lru_cache s)) \<ge> capacity s
              then bindE (od_popitem_first (lru_cache s)) (\<lambda>(_, c'). Inr (s\<lparr>lru_cache := c'\<rparr>))
              else Inr s) (\<lambda>s.
         Inr (False, s\<lparr>lru_cache := od_setitem item (lru_cache s)\<rparr>)))"

definition LRU_reset :: "LRUCache \<Rightarrow> LRUCache" where
  "LRU_reset s = s\<lparr>lru_cache := [], hits := 0, misses := 0, time := 0\<rparr>"

section \<open>cache\_lfu.py\<close>

text \<open>
  \<open>cache\<close> maps an item to its frequency; \<open>freq_to_items\<close> is a
  \<open>defaultdict(OrderedDict)\<close>: reading a missing frequency yields (and stores) an empty
  bucket. Its key order is never observed, so it is a map.
\<close>

record LFUCache = CachePolicy +
  lfu_cache :: "(int \<times> int) list"
  freq_to_items :: "int \<rightharpoonup> int list"
  min_freq :: int

definition LFU_init :: "int \<Rightarrow> LFUCache" where
  "LFU_init cap = \<lparr>capacity = cap, hits = 0, misses = 0, time = 0,
     lfu_cache = [], freq_to_items = Map.empty, min_freq = 0\<rparr>"

definition bucket :: "(int \<rightharpoonup> int list) \<Rightarrow> int \<Rightarrow> int list" where
  "bucket m f = (case m f of None \<Rightarrow> [] | Some b \<Rightarrow> b)"

definition next_iter :: "int list \<Rightarrow> error + int" where
  "next_iter d = (case d of [] \<Rightarrow> Inl StopIteration | x # _ \<Rightarrow> Inr x)"

definition LFU_hit :: "LFUCache \<Rightarrow> int \<Rightarrow> error + (bool \<times> LFUCache)" where
  "LFU_hit s item =
     bindE (dict_getitem (lfu_cache s) item) (\<lambda>freq.
     bindE (od_delitem item (bucket (freq_to_items s) freq)) (\<lambda>b'.
       let s = s\<lparr>freq_to_items := (freq_to_items s)(freq \<mapsto> b')\<rparr>;
           s = (if bucket (freq_to_items s) freq = []
                then (let s = s\<lparr>freq_to_items := (freq_to_items s)(freq := None)\<rparr>
                      in if min_freq s = freq then s\<lparr>min_freq := min_freq s + 1\<rparr> else s)
                else s);
           s = s\<lparr>lfu_cache := AList.update item (freq + 1) (lfu_cache s)\<rparr>;
           s = s\<lparr>freq_to_items := (freq_to_items s)
                  (freq + 1 \<mapsto> od_setitem item (bucket (freq_to_items s) (freq + 1)))\<rparr>
       in Inr (True, s\<lparr>hits := hits s + 1\<rparr>)))"

definition LFU_evict :: "LFUCache \<Rightarrow> error + LFUCache" where
  "LFU_evict s =
     (let lfu_items = bucket (freq_to_items s) (min_freq s) in
      bindE (next_iter lfu_items) (\<lambda>evict_item.
      bindE (od_delitem evict_item lfu_items) (\<lambda>b'.
        let s = s\<lparr>freq_to_items := (freq_to_items s)(min_freq s \<mapsto> b')\<rparr>;
            s = (if b' = [] then s\<lparr>freq_to_items := (freq_to_items s)(min_freq s := None)\<rparr> else s)
        in bindE (dict_delitem evict_item (lfu_cache s)) (\<lambda>c'. Inr (s\<lparr>lfu_cache := c'\<rparr>)))))"

definition LFU_access :: "LFUCache \<Rightarrow> int \<Rightarrow> error + (bool \<times> LFUCache)" where
  "LFU_access s0 item =
    (let s = s0\<lparr>time := time s0 + 1\<rparr> in
     if item \<in> set (dict_keys (lfu_cache s)) then LFU_hit s item
     else
       let s = s\<lparr>misses := misses s + 1\<rparr> in
       bindE (if int (length (lfu_cache s)) \<ge> capacity s then LFU_evict s else Inr s) (\<lambda>s.
         let s = s\<lparr>lfu_cache := AList.update item 1 (lfu_cache s)\<rparr>;
             s = s\<lparr>freq_to_items := (freq_to_items s)
                    (1 \<mapsto> od_setitem item (bucket (freq_to_items s) 1))\<rparr>
         in Inr (False, s\<lparr>min_freq := 1\<rparr>)))"

definition LFU_reset :: "LFUCache \<Rightarrow> LFUCache" where
  "LFU_reset s = s\<lparr>lfu_cache := [], freq_to_items := Map.empty, min_freq := 0,
     hits := 0, misses := 0, time := 0\<rparr>"

section \<open>cache\_arc.py\<close>

record ARCCache = CachePolicy +
  arc_c :: int
  arc_p :: int
  arc_t1 :: "int list"
  arc_t2 :: "int list"
  arc_b1 :: "int list"
  arc_b2 :: "int list"

definition ARC_init :: "int \<Rightarrow> ARCCache" where
  "ARC_init cap = \<lparr>capacity = cap, hits = 0, misses = 0, time = 0,
     arc_c = cap, arc_p = 0, arc_t1 = [], arc_t2 = [], arc_b1 = [], arc_b2 = []\<rparr>"

text \<open>
  The two eviction blocks that occur both in \<open>_replace\<close> and at the end of \<open>access\<close>:
  pop the oldest resident entry, record it in the ghost list, and drop the oldest ghost
  when the ghost list has grown beyond \<open>c\<close>.
\<close>

definition evict_t1_to_b1 :: "ARCCache \<Rightarrow> error + ARCCache" where
  "evict_t1_to_b1 s =
     bindE (od_popitem_first (arc_t1 s)) (\<lambda>(old, t1').
       let s = s\<lparr>arc_t1 := t1', arc_b1 := od_setitem old (arc_b1 s)\<rparr> in
       if int (length (arc_b1 s)) > arc_c s
       then bindE (od_popitem_first (arc_b1 s)) (\<lambda>(_, b1'). Inr (s\<lparr>arc_b1 := b1'\<rparr>))
       else Inr s)"

definition evict_t2_to_b2 :: "ARCCache \<Rightarrow> error + ARCCache" where
  "evict_t2_to_b2 s =
     bindE (od_popitem_first (arc_t2 s)) (\<lambda>(old, t2').
       let s = s\<lparr>arc_t2 := t2', arc_b2 := od_setitem old (arc_b2 s)\<rparr> in
       if int (length (arc_b2 s)) > arc_c s
       then bindE (od_popitem_first (arc_b2 s)) (\<lambda>(_, b2'). Inr (s\<lparr>arc_b2 := b2'\<rparr>))
       else Inr s)"

definition ARC_replace :: "bool \<Rightarrow> ARCCache \<Rightarrow> error + ARCCache" where
  "ARC_replace in_b2 s =
     (if arc_t1 s \<noteq> [] \<and>
         ((in_b2 \<and> int (length (arc_t1 s)) = arc_p s) \<or> int (length (arc_t1 s)) > arc_p s)
      then evict_t1_to_b1 s
      else if arc_t2 s \<noteq> [] then evict_t2_to_b2 s
      else Inr s)"

text \<open>Case 4 of \<open>access\<close>, first part: the branches on \<open>l1\<close> and \<open>l2\<close>.\<close>

definition ARC_make_room :: "ARCCache \<Rightarrow> error + ARCCache" where
  "ARC_make_room s =
    (let l1 = int (length (arc_t1 s)) + int (length (arc_b1 s));
         l2 = int (length (arc_t2 s)) + int (length (arc_b2 s)) in
     if l1 = arc_c s then
       (if int (length (arc_t1 s)) < arc_c s
        then bindE (od_popitem_first (arc_b1 s)) (\<lambda>(_, b1').
               ARC_replace False (s\<lparr>arc_b1 := b1'\<rparr>))
        else bindE (od_popitem_first (arc_t1 s)) (\<lambda>(_, t1'). Inr (s\<lparr>arc_t1 := t1'\<rparr>)))
     else if l1 < arc_c s \<and> l1 + l2 \<ge> arc_c s then
       bindE (if l1 + l2 \<ge> 2 * arc_c s \<and> arc_b2 s \<noteq> []
              then bindE (od_popitem_first (arc_b2 s)) (\<lambda>(_, b2'). Inr (s\<lparr>arc_b2 := b2'\<rparr>))
              else Inr s)
         (ARC_replace False)
     else Inr s)"

text \<open>Case 4 of \<open>access\<close>, second part: the block under the comment "Add to T1".\<close>

definition ARC_free_slot :: "ARCCache \<Rightarrow> error + ARCCache" where
  "ARC_free_slot s =
     (if int (length (arc_t1 s)) + int (length (arc_t2 s)) \<ge> arc_c s
      then (if arc_t1 s \<noteq> [] then evict_t1_to_b1 s
            else if arc_t2 s \<noteq> [] then evict_t2_to_b2 s
            else Inr s)
      else Inr s)"

definition ARC_access :: "ARCCache \<Rightarrow> int \<Rightarrow> error + (bool \<times> ARCCache)" where
  "ARC_access s0 item =
    (let s = s0\<lparr>time := time s0 + 1\<rparr> in
     if item \<in> set (arc_t1 s) then
       bindE (od_delitem item (arc_t1 s)) (\<lambda>t1'.
         Inr (True, s\<lparr>arc_t1 := t1', arc_t2 := od_setitem item (arc_t2 s), hits := hits s + 1\<rparr>))
     else if item \<in> set (arc_t2 s) then
       bindE (od_move_to_end item (arc_t2 s)) (\<lambda>t2'.
         Inr (True, s\<lparr>arc_t2 := t2', hits := hits s + 1\<rparr>))
     else
       let s = s\<lparr>misses := misses s + 1\<rparr> in
       if item \<in> set (arc_b1 s) then
         let delta = max 1 (int (length (arc_b2 s)) div max 1 (int (length (arc_b1 s))));
             s = s\<lparr>arc_p := min (arc_c s) (arc_p s + delta)\<rparr> in
         bindE (ARC_replace False s) (\<lambda>s.
         bindE (od_delitem item (arc_b1 s)) (\<lambda>b1'.
           Inr (False, s\<lparr>arc_b1 := b1', arc_t2 := od_setitem item (arc_t2 s)\<rparr>)))
       else if item \<in> set (arc_b2 s) then
         let delta = max 1 (int (length (arc_b1 s)) div max 1 (int (length (arc_b2 s))));
             s = s\<lparr>arc_p := max 0 (arc_p s - delta)\<rparr> in
         bindE (ARC_replace True s) (\<lambda>s.
         bindE (od_delitem item (arc_b2 s)) (\<lambda>b2'.
           Inr (False, s\<lparr>arc_b2 := b2', arc_t2 := od_setitem item (arc_t2 s)\<rparr>)))
       else
         bindE (ARC_make_room s) (\<lambda>s.
         bindE (ARC_free_slot s) (\<lambda>s.
           Inr (False, s\<lparr>arc_t1 := od_setitem item (arc_t1 s)\<rparr>))))"

definition ARC_reset :: "ARCCache \<Rightarrow> ARCCache" where
  "ARC_reset s = s\<lparr>arc_p := 0, arc_t1 := [], arc_t2 := [], arc_b1 := [], arc_b2 := [],
     hits := 0, misses := 0, time := 0\<rparr>"

section \<open>cache\_tdc.py\<close>

text \<open>
  Scores are Python floats, idealised as reals: every real score compares below
  \<open>float('inf')\<close>, so the running minimum starts as \<open>None\<close> (infinity) and the first
  item scanned always becomes the candidate. \<open>x ** n\<close> with a float base and an
  integer exponent raises \<open>ZeroDivisionError\<close> for \<open>0.0\<close> to a negative power.
  The constructor's default \<open>decay_rate\<close> is the literal \<open>0.99\<close>.
\<close>

record TimeDecayedCache = CachePolicy +
  decay_rate :: real
  tdc_cache :: "(int \<times> real) list"
  last_update_time :: "(int \<times> int) list"

definition default_decay_rate :: real where
  "default_decay_rate = 99 / 100"

definition TDC_init :: "int \<Rightarrow> real option \<Rightarrow> TimeDecayedCache" where
  "TDC_init cap dr = \<lparr>capacity = cap, hits = 0, misses = 0, time = 0,
     decay_rate = (case dr of None \<Rightarrow> default_decay_rate | Some d \<Rightarrow> d),
     tdc_cache = [], last_update_time = []\<rparr>"

definition py_pow :: "real \<Rightarrow> int \<Rightarrow> error + real" where
  "py_pow x n = (if x = 0 \<and> n < 0 then Inl ZeroDivisionError else Inr (power_int x n))"

definition update_score :: "TimeDecayedCache \<Rightarrow> int \<Rightarrow> error + real" where
  "update_score s item =
     (if item \<notin> set (dict_keys (tdc_cache s)) then Inr 0
      else bindE (dict_getitem (last_update_time s) item) (\<lambda>t.
           let time_diff = time s - t in
           bindE (dict_getitem (tdc_cache s) item) (\<lambda>sc.
           bindE (py_pow (decay_rate s) time_diff) (\<lambda>pw. Inr (sc * pw)))))"

text \<open>
  The eviction scan \<open>for cached_item in self.cache\<close>: the keys are fixed when the loop
  starts (only values are overwritten), and the loop carries \<open>(min_score, min_item)\<close>.
\<close>

fun rescan :: "TimeDecayedCache \<Rightarrow> int list \<Rightarrow> real option \<times> int option
    \<Rightarrow> error + (TimeDecayedCache \<times> real option \<times> int option)" where
  "rescan s [] acc = Inr (s, acc)"
| "rescan s (cached_item # rest) (min_score, min_item) =
     bindE (update_score s cached_item) (\<lambda>score.
       let s = s\<lparr>tdc_cache := AList.update cached_item score (tdc_cache s)\<rparr>;
           s = s\<lparr>last_update_time := AList.update cached_item (time s) (last_update_time s)\<rparr>
       in if (case min_score of None \<Rightarrow> True | Some m \<Rightarrow> score < m)
          then rescan s rest (Some score, Some cached_item)
          else rescan s rest (min_score, min_item))"

definition TDC_evict :: "TimeDecayedCache \<Rightarrow> error + TimeDecayedCache" where
  "TDC_evict s =
     bindE (rescan s (dict_keys (tdc_cache s)) (None, None)) (\<lambda>(s, _, min_item).
       case min_item of
         None \<Rightarrow> Inr s
       | Some k \<Rightarrow>
           bindE (dict_delitem k (tdc_cache s)) (\<lambda>c'.
           bindE (dict_delitem k (last_update_time s)) (\<lambda>l'.
             Inr (s\<lparr>tdc_cache := c', last_update_time := l'\<rparr>))))"

definition TDC_access :: "TimeDecayedCache \<Rightarrow> int \<Rightarrow> error + (bool \<times> TimeDecayedCache)" where
  "TDC_access s0 item =
    (let s = s0\<lparr>time := time s0 + 1\<rparr> in
     if item \<in> set (dict_keys (tdc_cache s)) then
       bindE (update_score s item) (\<lambda>current_score.
         let s = s\<lparr>tdc_cache := AList.update item (current_score + 1) (tdc_cache s)\<rparr>;
             s = s\<lparr>last_update_time := AList.update item (time s) (last_update_time s)\<rparr>
         in Inr (True, s\<lparr>hits := hits s + 1\<rparr>))
     else
       let s = s\<lparr>misses := misses s + 1\<rparr> in
       bindE (if int (length (tdc_cache s)) \<ge> capacity s then TDC_evict s else Inr s) (\<lambda>s.
         let s = s\<lparr>tdc_cache := AList.update item 1 (tdc_cache s)\<rparr>;
             s = s\<lparr>last_update_time := AList.update item (time s) (last_update_time s)\<rparr>
         in Inr (False, s)))"

definition TDC_reset :: "TimeDecayedCache \<Rightarrow> TimeDecayedCache" where
  "TDC_reset s = s\<lparr>tdc_cache := [], last_update_time := [], hits := 0, misses := 0, time := 0\<rparr>"

section \<open>The four policies behind the common interface\<close>

text \<open>
  The driver holds a \<open>CachePolicy\<close> and calls \<open>access\<close>, \<open>reset\<close> and \<open>get_stats\<close>
  on it; the method that runs is the one of the object's class.
\<close>

datatype policy = LRU LRUCache | LFU LFUCache | ARC ARCCache | TDC TimeDecayedCache

datatype params =
    LRU_params int
  | LFU_params int
  | ARC_params int
  | TDC_params int "real option"

fun construct :: "params \<Rightarrow> policy" where
  "construct (LRU_params cap) = LRU (LRU_init cap)"
| "construct (LFU_params cap) = LFU (LFU_init cap)"
| "construct (ARC_params cap) = ARC (ARC_init cap)"
| "construct (TDC_params cap dr) = TDC (TDC_init cap dr)"

fun capacity_param :: "params \<Rightarrow> int" where
  "capacity_param (LRU_params cap) = cap"
| "capacity_param (LFU_params cap) = cap"
| "capacity_param (ARC_params cap) = cap"
| "capacity_param (TDC_params cap dr) = cap"

definition lift_result :: "('a \<Rightarrow> policy) \<Rightarrow> error + (bool \<times> 'a) \<Rightarrow> error + (bool \<times> policy)" where
  "lift_result C r = bindE r (\<lambda>(hit, s). Inr (hit, C s))"

fun access :: "policy \<Rightarrow> int \<Rightarrow> error + (bool \<times> policy)" where
  "access (LRU s) item = lift_result LRU (LRU_access s item)"
| "access (LFU s) item = lift_result LFU (LFU_access s item)"
| "access (ARC s) item = lift_result ARC (ARC_access s item)"
| "access (TDC s) item = lift_result TDC (TDC_access s item)"

fun reset :: "policy \<Rightarrow> policy" where
  "reset (LRU s) = LRU (LRU_reset s)"
| "reset (LFU s) = LFU (LFU_reset s)"
| "reset (ARC s) = ARC (ARC_reset s)"
| "reset (TDC s) = TDC (TDC_reset s)"

fun capacity_of :: "policy \<Rightarrow> int" where
  "capacity_of (LRU s) = capacity s"
| "capacity_of (LFU s) = capacity s"
| "capacity_of (ARC s) = capacity s"
| "capacity_of (TDC s) = capacity s"

fun hits_of :: "policy \<Rightarrow> int" where
  "hits_of (LRU s) = hits s"
| "hits_of (LFU s) = hits s"
| "hits_of (ARC s) = hits s"
| "hits_of (TDC s) = hits s"

fun misses_of :: "policy \<Rightarrow> int" where
  "misses_of (LRU s) = misses s"
| "misses_of (LFU s) = misses s"
| "misses_of (ARC s) = misses s"
| "misses_of (TDC s) = misses s"

fun time_of :: "policy \<Rightarrow> int" where
  "time_of (LRU s) = time s"
| "time_of (LFU s) = time s"
| "time_of (ARC s) = time s"
| "time_of (TDC s) = time s"

fun hit_ratio :: "policy \<Rightarrow> error + real" where
  "hit_ratio (LRU s) = get_hit_ratio s"
| "hit_ratio (LFU s) = get_hit_ratio s"
| "hit_ratio (ARC s) = get_hit_ratio s"
| "hit_ratio (TDC s) = get_hit_ratio s"

fun stats :: "policy \<Rightarrow> error + (int \<times> int \<times> real)" where
  "stats (LRU s) = get_stats s"
| "stats (LFU s) = get_stats s"
| "stats (ARC s) = get_stats s"
| "stats (TDC s) = get_stats s"

text \<open>The resident set: what \<open>access\<close> tests to decide between hit and miss.\<close>

fun resident :: "policy \<Rightarrow> int set" where
  "resident (LRU s) = set (lru_cache s)"
| "resident (LFU s) = set (dict_keys (lfu_cache s))"
| "resident (ARC s) = set (arc_t1 s) \<union> set (arc_t2 s)"
| "resident (TDC s) = set (dict_keys (tdc_cache s))"

text \<open>The driver's loop \<open>for item in trace: cache.access(item)\<close>, collecting the outcomes.\<close>

fun run_trace :: "policy \<Rightarrow> int list \<Rightarrow> error + (bool list \<times> policy)" where
  "run_trace s [] = Inr ([], s)"
| "run_trace s (item # rest) =
     bindE (access s item) (\<lambda>(hit, s').
     bindE (run_trace s' rest) (\<lambda>(outs, s''). Inr (hit # outs, s'')))"

definition outcomes :: "policy \<Rightarrow> int list \<Rightarrow> error + bool list" where
  "outcomes s trace = bindE (run_trace s trace) (\<lambda>(outs, _). Inr outs)"

section \<open>Invariants and observers used in the proofs\<close>

text \<open>
  \<open>cap_ghost\<close> is the test \<open>if len(b) > c: b.popitem(last=False)\<close> that follows every
  insertion into a ghost list. \<open>evicted1\<close> and \<open>evicted2\<close> describe the state after
  moving the oldest entry of T1 into B1, or of T2 into B2.
\<close>

definition cap_ghost :: "int \<Rightarrow> int list \<Rightarrow> int list" where
  "cap_ghost c b = (if int (length b) > c then tl b else b)"

definition arc_frame :: "ARCCache \<Rightarrow> ARCCache \<Rightarrow> bool" where
  "arc_frame s s' \<longleftrightarrow> capacity s' = capacity s \<and> hits s' = hits s \<and> misses s' = misses s \<and>
     time s' = time s \<and> arc_c s' = arc_c s \<and> arc_p s' = arc_p s"

definition evicted1 :: "ARCCache \<Rightarrow> ARCCache \<Rightarrow> bool" where
  "evicted1 s s' \<longleftrightarrow> arc_frame s s' \<and> arc_t1 s \<noteq> [] \<and> arc_t1 s' = tl (arc_t1 s) \<and>
     arc_t2 s' = arc_t2 s \<and> arc_b2 s' = arc_b2 s \<and>
     arc_b1 s' = cap_ghost (arc_c s) (od_setitem (hd (arc_t1 s)) (arc_b1 s))"

definition evicted2 :: "ARCCache \<Rightarrow> ARCCache \<Rightarrow> bool" where
  "evicted2 s s' \<longleftrightarrow> arc_frame s s' \<and> arc_t2 s \<noteq> [] \<and> arc_t2 s' = tl (arc_t2 s) \<and>
     arc_t1 s' = arc_t1 s \<and> arc_b1 s' = arc_b1 s \<and>
     arc_b2 s' = cap_ghost (arc_c s) (od_setitem (hd (arc_t2 s)) (arc_b2 s))"

definition ARC_inv :: "ARCCache \<Rightarrow> bool" where
  "ARC_inv s \<longleftrightarrow> 0 < arc_c s \<and> capacity s = arc_c s \<and> 0 \<le> arc_p s \<and> arc_p s \<le> arc_c s \<and>
     int (length (arc_t1 s)) + int (length (arc_b1 s)) \<le> arc_c s \<and>
     int (length (arc_t1 s)) + int (length (arc_t2 s)) \<le> arc_c s \<and>
     int (length (arc_b2 s)) \<le> arc_c s"

definition arc_l1 :: "ARCCache \<Rightarrow> int" where
  "arc_l1 s = int (length (arc_t1 s)) + int (length (arc_b1 s))"

definition arc_size :: "ARCCache \<Rightarrow> int" where
  "arc_size s = int (length (arc_t1 s)) + int (length (arc_t2 s))"

definition tdc_frame :: "TimeDecayedCache \<Rightarrow> TimeDecayedCache \<Rightarrow> bool" where
  "tdc_frame s s' \<longleftrightarrow> capacity s' = capacity s \<and> hits s' = hits s \<and> misses s' = misses s \<and>
     time s' = time s \<and> decay_rate s' = decay_rate s"

inductive reachable :: "params \<Rightarrow> policy \<Rightarrow> bool" for prm :: params where
  reachable_init: "reachable prm (construct prm)"
| reachable_access: "reachable prm s \<Longrightarrow> access s item = Inr (hit, s') \<Longrightarrow> reachable prm s'"
| reachable_reset: "reachable prm s \<Longrightarrow> reachable prm (reset s)"


fun size_inv :: "policy \<Rightarrow> bool" where
  "size_inv (LRU s) \<longleftrightarrow> 0 < capacity s \<and> int (length (lru_cache s)) \<le> capacity s"
| "size_inv (LFU s) \<longleftrightarrow> 0 < capacity s \<and> int (length (lfu_cache s)) \<le> capacity s"
| "size_inv (ARC s) \<longleftrightarrow> ARC_inv s"
| "size_inv (TDC s) \<longleftrightarrow> 0 < capacity s \<and> int (length (tdc_cache s)) \<le> capacity s"

fun built_with :: "params \<Rightarrow> policy \<Rightarrow> bool" where
  "built_with (LRU_params cap) (LRU s) \<longleftrightarrow> capacity s = cap"
| "built_with (LFU_params cap) (LFU s) \<longleftrightarrow> capacity s = cap"
| "built_with (ARC_params cap) (ARC s) \<longleftrightarrow> capacity s = cap \<and> arc_c s = cap"
| "built_with (TDC_params cap dr) (TDC s) \<longleftrightarrow> capacity s = cap \<and>
     decay_rate s = (case dr of None \<Rightarrow> default_decay_rate | Some d \<Rightarrow> d)"
| "built_with _ _ \<longleftrightarrow> False"

definition counters_ok :: "policy \<Rightarrow> bool" where
  "counters_ok s \<longleftrightarrow> 0 \<le> hits_of s \<and> 0 \<le> misses_of s \<and> hits_of s + misses_of s = time_of s"

fun adaptation_state :: "policy \<Rightarrow> int list \<times> int list \<times> int" where
  "adaptation_state (ARC s) = (arc_b1 s, arc_b2 s, arc_p s)"
| "adaptation_state _ = ([], [], 0)"

section \<open>The adaptation target of the adaptive policy\<close>

text \<open>
  A run of the adaptive policy that keeps every intermediate state, and the traces on
  which every access is a hit or finds its item in the ghost list B1.
\<close>

fun ARC_run :: "ARCCache \<Rightarrow> int list \<Rightarrow> error + ARCCache list" where
  "ARC_run s [] = Inr []"
| "ARC_run s (item # rest) =
     bindE (ARC_access s item) (\<lambda>(hit, s').
     bindE (ARC_run s' rest) (\<lambda>ss. Inr (s' # ss)))"

fun misses_only_in_b1 :: "ARCCache \<Rightarrow> int list \<Rightarrow> bool" where
  "misses_only_in_b1 s [] = True"
| "misses_only_in_b1 s (item # rest) =
     ((item \<in> set (arc_t1 s) \<or> item \<in> set (arc_t2 s) \<or> item \<in> set (arc_b1 s)) \<and>
      (case ARC_access s item of Inl e \<Rightarrow> True | Inr (hit, s') \<Rightarrow> misses_only_in_b1 s' rest))"

section \<open>Basic facts about the runtime model\<close>

lemma bindE_Inl [simp]: "bindE (Inl e) f = Inl e"
  by (simp add: bindE_def)

lemma bindE_Inr [simp]: "bindE (Inr x) f = f x"
  by (simp add: bindE_def)

lemma bindE_eq_Inr: "bindE m f = Inr y \<longleftrightarrow> (\<exists>x. m = Inr x \<and> f x = Inr y)"
  by (cases m) auto

lemmas lru_eval = LRU_access_def LRU_init_def od_move_to_end_def od_popitem_first_def
  od_setitem_def lift_result_def outcomes_def Let_def

section \<open>The adaptive policy keeps its sizes and its target in range\<close>

lemma od_popitem_first_Cons [simp]: "od_popitem_first (x # r) = Inr (x, r)"
  by (simp add: od_popitem_first_def)

lemma od_popitem_first_Nil [simp]: "od_popitem_first [] = Inl KeyError"
  by (simp add: od_popitem_first_def)

lemma od_setitem_nonempty [simp]: "od_setitem k d \<noteq> []"
  by (auto simp: od_setitem_def)

lemma od_popitem_first_hd_tl: "d \<noteq> [] \<Longrightarrow> od_popitem_first d = Inr (hd d, tl d)"
  by (cases d) simp_all

lemma bucket_upd [simp]: "bucket (m(f \<mapsto> b)) g = (if g = f then b else bucket m g)"
  by (simp add: bucket_def)

lemma bucket_del [simp]: "bucket (m(f := None)) g = (if g = f then [] else bucket m g)"
  by (simp add: bucket_def)

lemma evict_t1_to_b1_eq:
  "evict_t1_to_b1 s = (case arc_t1 s of [] \<Rightarrow> Inl KeyError
     | old # r \<Rightarrow> Inr (s\<lparr>arc_t1 := r, arc_b1 := cap_ghost (arc_c s) (od_setitem old (arc_b1 s))\<rparr>))"
  by (simp add: evict_t1_to_b1_def cap_ghost_def od_popitem_first_hd_tl split: list.splits)

lemma evict_t2_to_b2_eq:
  "evict_t2_to_b2 s = (case arc_t2 s of [] \<Rightarrow> Inl KeyError
     | old # r \<Rightarrow> Inr (s\<lparr>arc_t2 := r, arc_b2 := cap_ghost (arc_c s) (od_setitem old (arc_b2 s))\<rparr>))"
  by (simp add: evict_t2_to_b2_def cap_ghost_def od_popitem_first_hd_tl split: list.splits)

lemma LFU_hit_eq:
  "LFU_hit s item =
    (case map_of (lfu_cache s) item of None \<Rightarrow> Inl KeyError
     | Some freq \<Rightarrow>
        if item \<in> set (bucket (freq_to_items s) freq) then
          (let b' = remove1 item (bucket (freq_to_items s) freq);
               m1 = (if b' = [] then (freq_to_items s)(freq := None) else (freq_to_items s)(freq \<mapsto> b'))
           in Inr (True, s\<lparr>freq_to_items := m1(freq + 1 \<mapsto> od_setitem item (bucket m1 (freq + 1))),
                min_freq := (if b' = [] \<and> min_freq s = freq then min_freq s + 1 else min_freq s),
                lfu_cache := AList.update item (freq + 1) (lfu_cache s),
                hits := hits s + 1\<rparr>))
        else Inl KeyError)"
  by (simp add: LFU_hit_def dict_getitem_def od_delitem_def Let_def split: option.splits)

lemma LFU_evict_eq:
  "LFU_evict s =
    (case bucket (freq_to_items s) (min_freq s) of [] \<Rightarrow> Inl StopIteration
     | e # b' \<Rightarrow>
        if e \<in> set (dict_keys (lfu_cache s))
        then Inr (s\<lparr>freq_to_items := (if b' = [] then (freq_to_items s)(min_freq s := None)
                                       else (freq_to_items s)(min_freq s \<mapsto> b')),
                    lfu_cache := AList.delete e (lfu_cache s)\<rparr>)
        else Inl KeyError)"
  by (simp add: LFU_evict_def next_iter_def od_delitem_def dict_delitem_def Let_def split: list.splits)


lemma length_od_setitem:
  "length (od_setitem k d) = (if k \<in> set d then length d else Suc (length d))"
  by (simp add: od_setitem_def)

lemma length_cap_ghost_le:
  "int (length (cap_ghost c (od_setitem k b))) \<le> int (length b) + 1"
  by (auto simp: cap_ghost_def length_od_setitem)

lemma length_cap_ghost_max:
  "int (length (cap_ghost c (od_setitem k b))) \<le> max (int (length b)) c"
  by (auto simp: cap_ghost_def length_od_setitem)

lemma arc_frame_refl [simp]: "arc_frame s s"
  by (simp add: arc_frame_def)

lemma evict_t1_effect: "evict_t1_to_b1 s = Inr s' \<Longrightarrow> evicted1 s s'"
  by (cases "arc_t1 s") (auto simp: evict_t1_to_b1_eq evicted1_def arc_frame_def)

lemma evict_t2_effect: "evict_t2_to_b2 s = Inr s' \<Longrightarrow> evicted2 s s'"
  by (cases "arc_t2 s") (auto simp: evict_t2_to_b2_eq evicted2_def arc_frame_def)

lemma ARC_replace_effect:
  assumes "ARC_replace in_b2 s = Inr s'"
  shows "evicted1 s s' \<or> evicted2 s s' \<or>
         (s' = s \<and> arc_t2 s = [] \<and>
           (arc_t1 s = [] \<or> (if in_b2 then int (length (arc_t1 s)) < arc_p s
                               else int (length (arc_t1 s)) \<le> arc_p s)))"
  using assms unfolding ARC_replace_def
  by (auto split: if_splits dest: evict_t1_effect evict_t2_effect)


lemma ARC_inv_alt:
  "ARC_inv s \<longleftrightarrow> 0 < arc_c s \<and> capacity s = arc_c s \<and> 0 \<le> arc_p s \<and> arc_p s \<le> arc_c s \<and>
     arc_l1 s \<le> arc_c s \<and> arc_size s \<le> arc_c s \<and> int (length (arc_b2 s)) \<le> arc_c s"
  by (simp add: ARC_inv_def arc_l1_def arc_size_def)

lemma evicted1_sizes:
  assumes "evicted1 s s'"
  shows "arc_frame s s'" "arc_size s' = arc_size s - 1" "arc_l1 s' \<le> arc_l1 s"
        "arc_b2 s' = arc_b2 s"
proof -
  from assms have t1: "arc_t1 s \<noteq> []" "arc_t1 s' = tl (arc_t1 s)" "arc_t2 s' = arc_t2 s"
    and b1: "arc_b1 s' = cap_ghost (arc_c s) (od_setitem (hd (arc_t1 s)) (arc_b1 s))"
    and fr: "arc_frame s s'" and b2: "arc_b2 s' = arc_b2 s"
    by (simp_all add: evicted1_def)
  from t1 have len: "int (length (arc_t1 s')) = int (length (arc_t1 s)) - 1"
    by (cases "arc_t1 s") simp_all
  show "arc_frame s s'" by (rule fr)
  show "arc_b2 s' = arc_b2 s" by (rule b2)
  show "arc_size s' = arc_size s - 1" using len t1 by (simp add: arc_size_def)
  show "arc_l1 s' \<le> arc_l1 s"
    using len length_cap_ghost_le[of "arc_c s" "hd (arc_t1 s)" "arc_b1 s"] b1
    by (simp add: arc_l1_def)
qed

lemma evicted2_sizes:
  assumes "evicted2 s s'"
  shows "arc_frame s s'" "arc_size s' = arc_size s - 1" "arc_l1 s' = arc_l1 s"
        "int (length (arc_b2 s')) \<le> max (int (length (arc_b2 s))) (arc_c s)"
proof -
  from assms have t2: "arc_t2 s \<noteq> []" "arc_t2 s' = tl (arc_t2 s)" "arc_t1 s' = arc_t1 s"
    and b2: "arc_b2 s' = cap_ghost (arc_c s) (od_setitem (hd (arc_t2 s)) (arc_b2 s))"
    and fr: "arc_frame s s'" and b1: "arc_b1 s' = arc_b1 s"
    by (simp_all add: evicted2_def)
  from t2 have len: "int (length (arc_t2 s')) = int (length (arc_t2 s)) - 1"
    by (cases "arc_t2 s") simp_all
  show "arc_frame s s'" by (rule fr)
  show "arc_size s' = arc_size s - 1" using len t2 by (simp add: arc_size_def)
  show "arc_l1 s' = arc_l1 s" using t2 b1 by (simp add: arc_l1_def)
  show "int (length (arc_b2 s')) \<le> max (int (length (arc_b2 s))) (arc_c s)"
    unfolding b2 by (rule length_cap_ghost_max)
qed

lemma evicted1_inv: "evicted1 s s' \<Longrightarrow> ARC_inv s \<Longrightarrow> ARC_inv s'"
  using evicted1_sizes[of s s'] by (auto simp: ARC_inv_alt arc_frame_def)

lemma evicted2_inv: "evicted2 s s' \<Longrightarrow> ARC_inv s \<Longrightarrow> ARC_inv s'"
  using evicted2_sizes[of s s'] by (auto simp: ARC_inv_alt arc_frame_def)

lemma ARC_replace_inv:
  assumes "ARC_replace in_b2 s = Inr s'" "ARC_inv s"
  shows "ARC_inv s'" "arc_frame s s'" "arc_l1 s' \<le> arc_l1 s" "arc_size s' \<le> arc_size s"
  using ARC_replace_effect[OF assms(1)] assms(2) evicted1_sizes[of s s'] evicted2_sizes[of s s']
  by (auto dest: evicted1_inv evicted2_inv)


lemma od_popitem_first_Inr: "od_popitem_first d = Inr (x, r) \<longleftrightarrow> d = x # r"
  by (cases d) auto

lemma ARC_inv_drop_b1:
  "ARC_inv s \<Longrightarrow> arc_b1 s = x # r \<Longrightarrow> ARC_inv (s\<lparr>arc_b1 := r\<rparr>)"
  by (simp add: ARC_inv_def)

lemma ARC_inv_drop_b2:
  "ARC_inv s \<Longrightarrow> arc_b2 s = x # r \<Longrightarrow> ARC_inv (s\<lparr>arc_b2 := r\<rparr>)"
  by (simp add: ARC_inv_def)

lemma ARC_inv_drop_t1:
  "ARC_inv s \<Longrightarrow> arc_t1 s = x # r \<Longrightarrow> ARC_inv (s\<lparr>arc_t1 := r\<rparr>)"
  by (simp add: ARC_inv_def)

lemma ARC_make_room_inv:
  assumes run: "ARC_make_room s = Inr s'" and inv: "ARC_inv s"
  shows "ARC_inv s' \<and> arc_frame s s' \<and> arc_l1 s' < arc_c s \<and> arc_size s' \<le> arc_size s"
proof -
  let ?l1 = "int (length (arc_t1 s)) + int (length (arc_b1 s))"
  let ?l2 = "int (length (arc_t2 s)) + int (length (arc_b2 s))"
  from inv have l1: "?l1 \<le> arc_c s" by (simp add: ARC_inv_def)
  consider (ghost) "?l1 = arc_c s" "int (length (arc_t1 s)) < arc_c s"
    | (full) "?l1 = arc_c s" "\<not> int (length (arc_t1 s)) < arc_c s"
    | (mid) "?l1 < arc_c s" "?l1 + ?l2 \<ge> arc_c s"
    | (free) "?l1 < arc_c s" "\<not> ?l1 + ?l2 \<ge> arc_c s"
    using l1 by linarith
  then show ?thesis
  proof cases
    case ghost
    with run obtain x r where b1: "arc_b1 s = x # r"
      and rep: "ARC_replace False (s\<lparr>arc_b1 := r\<rparr>) = Inr s'"
      by (auto simp: ARC_make_room_def Let_def bindE_eq_Inr od_popitem_first_Inr)
    let ?s1 = "s\<lparr>arc_b1 := r\<rparr>"
    have inv1: "ARC_inv ?s1" using inv b1 by (rule ARC_inv_drop_b1)
    have l11: "arc_l1 ?s1 < arc_c s" using ghost b1 by (simp add: arc_l1_def)
    have "arc_size ?s1 = arc_size s" by (simp add: arc_size_def)
    with ARC_replace_inv[OF rep inv1] l11 show ?thesis
      by (simp add: arc_frame_def)
  next
    case full
    with run obtain x r where t1: "arc_t1 s = x # r" and s': "s' = s\<lparr>arc_t1 := r\<rparr>"
      by (auto simp: ARC_make_room_def Let_def bindE_eq_Inr od_popitem_first_Inr)
    have "ARC_inv s'" unfolding s' using inv t1 by (rule ARC_inv_drop_t1)
    then show ?thesis using full t1 l1
      by (simp add: s' arc_frame_def arc_l1_def arc_size_def)
  next
    case mid
    show ?thesis
    proof (cases "?l1 + ?l2 \<ge> 2 * arc_c s \<and> arc_b2 s \<noteq> []")
      case True
      with run mid obtain x r where b2: "arc_b2 s = x # r"
        and rep: "ARC_replace False (s\<lparr>arc_b2 := r\<rparr>) = Inr s'"
        by (auto simp: ARC_make_room_def Let_def bindE_eq_Inr od_popitem_first_Inr)
      let ?s1 = "s\<lparr>arc_b2 := r\<rparr>"
      have inv1: "ARC_inv ?s1" using inv b2 by (rule ARC_inv_drop_b2)
      have l11: "arc_l1 ?s1 < arc_c s" using mid by (simp add: arc_l1_def)
      have "arc_size ?s1 = arc_size s" by (simp add: arc_size_def)
      with ARC_replace_inv[OF rep inv1] l11 show ?thesis
        by (simp add: arc_frame_def)
    next
      case False
      with run mid have rep: "ARC_replace False s = Inr s'"
        by (auto simp: ARC_make_room_def Let_def)
      have "arc_l1 s < arc_c s" using mid by (simp add: arc_l1_def)
      with ARC_replace_inv[OF rep inv] show ?thesis by simp
    qed
  next
    case free
    with run have "s' = s" by (auto simp: ARC_make_room_def Let_def)
    with inv free show ?thesis by (simp add: arc_l1_def)
  qed
qed

lemma ARC_free_slot_inv:
  assumes run: "ARC_free_slot s = Inr s'" and inv: "ARC_inv s" and l1: "arc_l1 s < arc_c s"
  shows "ARC_inv s' \<and> arc_frame s s' \<and> arc_l1 s' < arc_c s \<and> arc_size s' < arc_c s"
proof (cases "arc_size s \<ge> arc_c s")
  case True
  from inv have c: "0 < arc_c s" "arc_size s \<le> arc_c s" by (simp_all add: ARC_inv_alt)
  show ?thesis
  proof (cases "arc_t1 s \<noteq> []")
    case t1: True
    with run True have "evicted1 s s'"
      by (auto simp: ARC_free_slot_def arc_size_def dest: evict_t1_effect)
    with evicted1_sizes[of s s'] evicted1_inv[of s s'] inv l1 c show ?thesis by simp
  next
    case t1: False
    with True c have "arc_t2 s \<noteq> []" by (auto simp: arc_size_def)
    with run True t1 have "evicted2 s s'"
      by (auto simp: ARC_free_slot_def arc_size_def dest: evict_t2_effect)
    with evicted2_sizes[of s s'] evicted2_inv[of s s'] inv l1 c show ?thesis by simp
  qed
next
  case False
  with run have "s' = s" by (auto simp: ARC_free_slot_def arc_size_def)
  with False inv l1 show ?thesis by simp
qed


lemma bindE_if: "bindE (if c then a else b) f = (if c then bindE a f else bindE b f)"
  by simp

lemma ARC_access_t1:
  "item \<in> set (arc_t1 s) \<Longrightarrow> ARC_access s item =
     Inr (True, s\<lparr>time := time s + 1, arc_t1 := remove1 item (arc_t1 s),
                  arc_t2 := od_setitem item (arc_t2 s), hits := hits s + 1\<rparr>)"
  by (simp add: ARC_access_def od_delitem_def)

lemma ARC_access_t2:
  "item \<notin> set (arc_t1 s) \<Longrightarrow> item \<in> set (arc_t2 s) \<Longrightarrow> ARC_access s item =
     Inr (True, s\<lparr>time := time s + 1, arc_t2 := remove1 item (arc_t2 s) @ [item],
                  hits := hits s + 1\<rparr>)"
  by (simp add: ARC_access_def od_move_to_end_def)

lemma ARC_access_b1:
  "item \<notin> set (arc_t1 s) \<Longrightarrow> item \<notin> set (arc_t2 s) \<Longrightarrow> item \<in> set (arc_b1 s) \<Longrightarrow>
   ARC_access s item =
     bindE (ARC_replace False (s\<lparr>time := time s + 1, misses := misses s + 1,
        arc_p := min (arc_c s) (arc_p s + max 1 (int (length (arc_b2 s)) div max 1 (int (length (arc_b1 s)))))\<rparr>))
      (\<lambda>s2. if item \<in> set (arc_b1 s2)
            then Inr (False, s2\<lparr>arc_b1 := remove1 item (arc_b1 s2), arc_t2 := od_setitem item (arc_t2 s2)\<rparr>)
            else Inl KeyError)"
  by (simp add: ARC_access_def od_delitem_def Let_def bindE_if cong del: if_weak_cong)

lemma ARC_access_b2:
  "item \<notin> set (arc_t1 s) \<Longrightarrow> item \<notin> set (arc_t2 s) \<Longrightarrow> item \<notin> set (arc_b1 s) \<Longrightarrow>
   item \<in> set (arc_b2 s) \<Longrightarrow>
   ARC_access s item =
     bindE (ARC_replace True (s\<lparr>time := time s + 1, misses := misses s + 1,
        arc_p := max 0 (arc_p s - max 1 (int (length (arc_b1 s)) div max 1 (int (length (arc_b2 s)))))\<rparr>))
      (\<lambda>s2. if item \<in> set (arc_b2 s2)
            then Inr (False, s2\<lparr>arc_b2 := remove1 item (arc_b2 s2), arc_t2 := od_setitem item (arc_t2 s2)\<rparr>)
            else Inl KeyError)"
  by (simp add: ARC_access_def od_delitem_def Let_def bindE_if cong del: if_weak_cong)

lemma ARC_access_new:
  "item \<notin> set (arc_t1 s) \<Longrightarrow> item \<notin> set (arc_t2 s) \<Longrightarrow> item \<notin> set (arc_b1 s) \<Longrightarrow>
   item \<notin> set (arc_b2 s) \<Longrightarrow>
   ARC_access s item =
     bindE (ARC_make_room (s\<lparr>time := time s + 1, misses := misses s + 1\<rparr>)) (\<lambda>s2.
     bindE (ARC_free_slot s2) (\<lambda>s3.
       Inr (False, s3\<lparr>arc_t1 := od_setitem item (arc_t1 s3)\<rparr>)))"
  by (simp add: ARC_access_def Let_def)

lemma ARC_inv_tick:
  "ARC_inv s \<Longrightarrow> 0 \<le> q \<Longrightarrow> q \<le> arc_c s \<Longrightarrow> ARC_inv (s\<lparr>time := t, misses := m, arc_p := q\<rparr>)"
  by (simp add: ARC_inv_def)

lemma ARC_inv_tick2:
  "ARC_inv s \<Longrightarrow> ARC_inv (s\<lparr>time := t, misses := m\<rparr>)"
  by (simp add: ARC_inv_def)


lemma length_remove1_mem: "x \<in> set xs \<Longrightarrow> int (length (remove1 x xs)) = int (length xs) - 1"
proof -
  assume "x \<in> set xs"
  then have "0 < length xs" "length (remove1 x xs) = length xs - 1"
    by (auto simp: length_remove1)
  then show ?thesis by linarith
qed

lemma ARC_access_inv_t1:
  assumes run: "ARC_access s item = Inr (hit, s')" and inv: "ARC_inv s"
    and t1: "item \<in> set (arc_t1 s)"
  shows "ARC_inv s'"
proof -
  from run t1 have s': "s' = s\<lparr>time := time s + 1, arc_t1 := remove1 item (arc_t1 s),
       arc_t2 := od_setitem item (arc_t2 s), hits := hits s + 1\<rparr>"
    by (simp add: ARC_access_t1)
  show ?thesis using inv length_remove1_mem[OF t1] unfolding s'
    by (simp add: ARC_inv_def length_od_setitem)
qed

lemma ARC_access_inv_t2:
  assumes run: "ARC_access s item = Inr (hit, s')" and inv: "ARC_inv s"
    and t2: "item \<notin> set (arc_t1 s)" "item \<in> set (arc_t2 s)"
  shows "ARC_inv s'"
proof -
  from run t2 have s': "s' = s\<lparr>time := time s + 1, arc_t2 := remove1 item (arc_t2 s) @ [item],
       hits := hits s + 1\<rparr>"
    by (simp add: ARC_access_t2)
  show ?thesis using inv length_remove1_mem[OF t2(2)] unfolding s'
    by (simp add: ARC_inv_def)
qed

lemma ghost_result:
  assumes "bindE m (\<lambda>s2. if P s2 then Inr (False, F s2) else Inl KeyError) = Inr (hit, s')"
  obtains s2 where "m = Inr s2" "P s2" "s' = F s2" "\<not> hit"
proof -
  from assms obtain s2 where m: "m = Inr s2"
    and r: "(if P s2 then Inr (False, F s2) else Inl KeyError) = Inr (hit, s')"
    unfolding bindE_eq_Inr by blast
  from r have "P s2" by (cases "P s2") simp_all
  with r have "s' = F s2" "\<not> hit" by simp_all
  with m \<open>P s2\<close> that show thesis by blast
qed

lemma ARC_ghost_insert_inv:
  assumes inv: "ARC_inv s2" and small: "arc_size s2 < arc_c s2"
  shows "ARC_inv (s2\<lparr>arc_b1 := remove1 item (arc_b1 s2), arc_t2 := od_setitem item (arc_t2 s2)\<rparr>)"
    "ARC_inv (s2\<lparr>arc_b2 := remove1 item (arc_b2 s2), arc_t2 := od_setitem item (arc_t2 s2)\<rparr>)"
proof -
  have "int (length (remove1 item (arc_b1 s2))) \<le> int (length (arc_b1 s2))"
       "int (length (remove1 item (arc_b2 s2))) \<le> int (length (arc_b2 s2))"
    by (simp_all add: length_remove1)
  moreover have "int (length (od_setitem item (arc_t2 s2))) \<le> int (length (arc_t2 s2)) + 1"
    by (simp add: length_od_setitem)
  ultimately show
    "ARC_inv (s2\<lparr>arc_b1 := remove1 item (arc_b1 s2), arc_t2 := od_setitem item (arc_t2 s2)\<rparr>)"
    "ARC_inv (s2\<lparr>arc_b2 := remove1 item (arc_b2 s2), arc_t2 := od_setitem item (arc_t2 s2)\<rparr>)"
    using inv small by (simp_all add: ARC_inv_def arc_size_def)
qed

lemma p_up_range:
  "0 \<le> p \<Longrightarrow> p \<le> c \<Longrightarrow> 0 \<le> min c (p + max 1 d) \<and> min c (p + max 1 d) \<le> (c::int)"
  by (simp add: max_def min_def)

lemma p_down_range:
  "0 \<le> p \<Longrightarrow> p \<le> c \<Longrightarrow> 0 \<le> max 0 (p - max 1 d) \<and> max 0 (p - max 1 d) \<le> (c::int)"
  by (simp add: max_def)

lemma ARC_replace_small_b1:
  assumes rep: "ARC_replace False s1 = Inr s2" and inv1: "ARC_inv s1"
    and mem: "item \<in> set (arc_b1 s2)"
  shows "arc_size s2 < arc_c s2"
proof -
  note r = ARC_replace_inv[OF rep inv1]
  have fr: "arc_c s2 = arc_c s1" using r(2) by (simp add: arc_frame_def)
  from ARC_replace_effect[OF rep]
  consider "evicted1 s1 s2" | "evicted2 s1 s2" | "s2 = s1" "arc_t2 s1 = []" by blast
  then show ?thesis
  proof cases
    case 1
    from evicted1_sizes(2)[OF 1] inv1 show ?thesis unfolding fr by (simp add: ARC_inv_alt)
  next
    case 2
    from evicted2_sizes(2)[OF 2] inv1 show ?thesis unfolding fr by (simp add: ARC_inv_alt)
  next
    case 3
    with inv1 mem show ?thesis by (cases "arc_b1 s2") (simp_all add: ARC_inv_def arc_size_def)
  qed
qed

lemma ARC_replace_small_b2:
  assumes rep: "ARC_replace True s1 = Inr s2" and inv1: "ARC_inv s1"
  shows "arc_size s2 < arc_c s2"
proof -
  note r = ARC_replace_inv[OF rep inv1]
  have fr: "arc_c s2 = arc_c s1" using r(2) by (simp add: arc_frame_def)
  from ARC_replace_effect[OF rep]
  consider "evicted1 s1 s2" | "evicted2 s1 s2"
    | "s2 = s1" "arc_t2 s1 = []" "arc_t1 s1 = [] \<or> int (length (arc_t1 s1)) < arc_p s1"
    by auto
  then show ?thesis
  proof cases
    case 1
    from evicted1_sizes(2)[OF 1] inv1 show ?thesis unfolding fr by (simp add: ARC_inv_alt)
  next
    case 2
    from evicted2_sizes(2)[OF 2] inv1 show ?thesis unfolding fr by (simp add: ARC_inv_alt)
  next
    case 3
    with inv1 show ?thesis unfolding ARC_inv_def arc_size_def by auto
  qed
qed

lemma ARC_access_inv_b1:
  assumes run: "ARC_access s item = Inr (hit, s')" and inv: "ARC_inv s"
    and b1: "item \<notin> set (arc_t1 s)" "item \<notin> set (arc_t2 s)" "item \<in> set (arc_b1 s)"
  shows "ARC_inv s'"
proof -
  define q where "q = min (arc_c s) (arc_p s + max 1 (int (length (arc_b2 s)) div max 1 (int (length (arc_b1 s)))))"
  define s1 where "s1 = s\<lparr>time := time s + 1, misses := misses s + 1, arc_p := q\<rparr>"
  from run obtain s2 where rep: "ARC_replace False s1 = Inr s2"
    and mem: "item \<in> set (arc_b1 s2)"
    and s': "s' = s2\<lparr>arc_b1 := remove1 item (arc_b1 s2), arc_t2 := od_setitem item (arc_t2 s2)\<rparr>"
    unfolding ARC_access_b1[OF b1] s1_def q_def by (rule ghost_result)
  from inv have "0 \<le> arc_p s" "arc_p s \<le> arc_c s" by (simp_all add: ARC_inv_def)
  from p_up_range[OF this] have "0 \<le> q" "q \<le> arc_c s" by (simp_all add: q_def)
  with inv have inv1: "ARC_inv s1" unfolding s1_def by (rule ARC_inv_tick)
  show ?thesis unfolding s'
    using ARC_replace_inv(1)[OF rep inv1] ARC_replace_small_b1[OF rep inv1 mem]
    by (rule ARC_ghost_insert_inv)
qed

lemma ARC_access_inv_b2:
  assumes run: "ARC_access s item = Inr (hit, s')" and inv: "ARC_inv s"
    and b2: "item \<notin> set (arc_t1 s)" "item \<notin> set (arc_t2 s)" "item \<notin> set (arc_b1 s)"
           "item \<in> set (arc_b2 s)"
  shows "ARC_inv s'"
proof -
  define q where "q = max 0 (arc_p s - max 1 (int (length (arc_b1 s)) div max 1 (int (length (arc_b2 s)))))"
  define s1 where "s1 = s\<lparr>time := time s + 1, misses := misses s + 1, arc_p := q\<rparr>"
  from run obtain s2 where rep: "ARC_replace True s1 = Inr s2"
    and mem: "item \<in> set (arc_b2 s2)"
    and s': "s' = s2\<lparr>arc_b2 := remove1 item (arc_b2 s2), arc_t2 := od_setitem item (arc_t2 s2)\<rparr>"
    unfolding ARC_access_b2[OF b2] s1_def q_def by (rule ghost_result)
  from inv have "0 \<le> arc_p s" "arc_p s \<le> arc_c s" by (simp_all add: ARC_inv_def)
  from p_down_range[OF this] have "0 \<le> q" "q \<le> arc_c s" by (simp_all add: q_def)
  with inv have inv1: "ARC_inv s1" unfolding s1_def by (rule ARC_inv_tick)
  show ?thesis unfolding s'
    using ARC_replace_inv(1)[OF rep inv1] ARC_replace_small_b2[OF rep inv1]
    by (rule ARC_ghost_insert_inv)
qed

lemma ARC_access_inv_new:
  assumes run: "ARC_access s item = Inr (hit, s')" and inv: "ARC_inv s"
    and new: "item \<notin> set (arc_t1 s)" "item \<notin> set (arc_t2 s)" "item \<notin> set (arc_b1 s)"
           "item \<notin> set (arc_b2 s)"
  shows "ARC_inv s'"
proof -
  let ?s1 = "s\<lparr>time := time s + 1, misses := misses s + 1\<rparr>"
  from run obtain s2 s3 where mr: "ARC_make_room ?s1 = Inr s2"
    and fs: "ARC_free_slot s2 = Inr s3"
    and s': "s' = s3\<lparr>arc_t1 := od_setitem item (arc_t1 s3)\<rparr>"
    unfolding ARC_access_new[OF new] bindE_eq_Inr by blast
  have inv1: "ARC_inv ?s1" using inv by (rule ARC_inv_tick2)
  from ARC_make_room_inv[OF mr inv1]
  have inv2: "ARC_inv s2" and l2: "arc_l1 s2 < arc_c s2" by (simp_all add: arc_frame_def)
  from ARC_free_slot_inv[OF fs inv2 l2]
  have "ARC_inv s3" "arc_l1 s3 < arc_c s3" "arc_size s3 < arc_c s3" by (simp_all add: arc_frame_def)
  moreover have "int (length (od_setitem item (arc_t1 s3))) \<le> int (length (arc_t1 s3)) + 1"
    by (simp add: length_od_setitem)
  ultimately show ?thesis
    unfolding s' by (simp add: ARC_inv_def arc_size_def arc_l1_def)
qed

lemma ARC_access_inv:
  assumes "ARC_access s item = Inr (hit, s')" "ARC_inv s"
  shows "ARC_inv s'"
  using assms ARC_access_inv_t1 ARC_access_inv_t2 ARC_access_inv_b1 ARC_access_inv_b2
    ARC_access_inv_new by blast

section \<open>The golden trace of the recency policy\<close>

text \<open>
  C5: on a freshly constructed LRUCache with capacity 3, the access sequence
  [1,2,3,1,2,4,1,5] returns exactly [miss, miss, miss, hit, hit, miss, hit, miss].
\<close>

theorem lru_golden_trace:
  "outcomes (construct (LRU_params 3)) [1, 2, 3, 1, 2, 4, 1, 5]
     = Inr [False, False, False, True, True, False, True, False]"
  by (simp add: lru_eval)

section \<open>Counters, reachable states and the capacity bound\<close>

lemma LRU_access_hit:
  "item \<in> set (lru_cache s) \<Longrightarrow> LRU_access s item =
     Inr (True, s\<lparr>time := time s + 1, lru_cache := remove1 item (lru_cache s) @ [item],
                  hits := hits s + 1\<rparr>)"
  by (simp add: LRU_access_def od_move_to_end_def)

lemma LRU_access_miss:
  "item \<notin> set (lru_cache s) \<Longrightarrow> LRU_access s item =
     (if int (length (lru_cache s)) \<ge> capacity s
      then (case lru_cache s of [] \<Rightarrow> Inl KeyError
            | x # r \<Rightarrow> Inr (False, s\<lparr>time := time s + 1, misses := misses s + 1,
                                      lru_cache := r @ [item]\<rparr>))
      else Inr (False, s\<lparr>time := time s + 1, misses := misses s + 1,
                         lru_cache := lru_cache s @ [item]\<rparr>))"
  by (auto simp: LRU_access_def od_setitem_def split: list.splits)

lemma LRU_access_counters:
  assumes "LRU_access s item = Inr (hit, s')"
  shows "capacity s' = capacity s \<and> time s' = time s + 1 \<and>
     hits s' = hits s + (if hit then 1 else 0) \<and>
     misses s' = misses s + (if hit then 0 else 1)"
proof (cases "item \<in> set (lru_cache s)")
  case True
  with assms show ?thesis by (auto simp: LRU_access_hit)
next
  case False
  with assms show ?thesis by (auto simp: LRU_access_miss split: if_splits list.splits)
qed

lemma LFU_access_hit:
  "item \<in> set (dict_keys (lfu_cache s)) \<Longrightarrow>
     LFU_access s item = LFU_hit (s\<lparr>time := time s + 1\<rparr>) item"
  by (simp add: LFU_access_def)

lemma LFU_access_miss:
  "item \<notin> set (dict_keys (lfu_cache s)) \<Longrightarrow> LFU_access s item =
     bindE (if int (length (lfu_cache s)) \<ge> capacity s
            then LFU_evict (s\<lparr>time := time s + 1, misses := misses s + 1\<rparr>)
            else Inr (s\<lparr>time := time s + 1, misses := misses s + 1\<rparr>))
       (\<lambda>s1. Inr (False, s1\<lparr>lfu_cache := AList.update item 1 (lfu_cache s1),
            freq_to_items := (freq_to_items s1)(1 \<mapsto> od_setitem item (bucket (freq_to_items s1) 1)),
            min_freq := 1\<rparr>))"
  by (simp add: LFU_access_def Let_def)

lemma LFU_evict_frame:
  assumes "LFU_evict s = Inr s'"
  shows "capacity s' = capacity s \<and> time s' = time s \<and> hits s' = hits s \<and> misses s' = misses s"
  using assms by (auto simp: LFU_evict_eq split: list.splits if_splits)

lemma LFU_hit_counters:
  assumes "LFU_hit s item = Inr (hit, s')"
  shows "hit \<and> capacity s' = capacity s \<and> time s' = time s \<and> hits s' = hits s + 1 \<and>
     misses s' = misses s"
  using assms by (auto simp: LFU_hit_eq Let_def split: option.splits if_splits)

lemma LFU_access_counters:
  assumes "LFU_access s item = Inr (hit, s')"
  shows "capacity s' = capacity s \<and> time s' = time s + 1 \<and>
     hits s' = hits s + (if hit then 1 else 0) \<and>
     misses s' = misses s + (if hit then 0 else 1)"
proof (cases "item \<in> set (dict_keys (lfu_cache s))")
  case True
  with assms have "LFU_hit (s\<lparr>time := time s + 1\<rparr>) item = Inr (hit, s')"
    by (simp add: LFU_access_hit)
  from LFU_hit_counters[OF this] show ?thesis by simp
next
  case False
  from assms obtain s1 where
    ev: "(if int (length (lfu_cache s)) \<ge> capacity s
            then LFU_evict (s\<lparr>time := time s + 1, misses := misses s + 1\<rparr>)
            else Inr (s\<lparr>time := time s + 1, misses := misses s + 1\<rparr>)) = Inr s1"
    and r: "hit = False" "s' = s1\<lparr>lfu_cache := AList.update item 1 (lfu_cache s1),
            freq_to_items := (freq_to_items s1)(1 \<mapsto> od_setitem item (bucket (freq_to_items s1) 1)),
            min_freq := 1\<rparr>"
    unfolding LFU_access_miss[OF False] bindE_eq_Inr by auto
  from ev have "capacity s1 = capacity s \<and> time s1 = time s + 1 \<and> hits s1 = hits s \<and>
      misses s1 = misses s + 1"
    by (auto split: if_splits dest!: LFU_evict_frame)
  then show ?thesis by (simp add: r)
qed


lemma TDC_access_hit:
  "item \<in> set (dict_keys (tdc_cache s)) \<Longrightarrow> TDC_access s item =
     bindE (update_score (s\<lparr>time := time s + 1\<rparr>) item) (\<lambda>sc.
       Inr (True, s\<lparr>time := time s + 1,
              tdc_cache := AList.update item (sc + 1) (tdc_cache s),
              last_update_time := AList.update item (time s + 1) (last_update_time s),
              hits := hits s + 1\<rparr>))"
  by (simp add: TDC_access_def Let_def)

lemma TDC_access_miss:
  "item \<notin> set (dict_keys (tdc_cache s)) \<Longrightarrow> TDC_access s item =
     bindE (if int (length (tdc_cache s)) \<ge> capacity s
            then TDC_evict (s\<lparr>time := time s + 1, misses := misses s + 1\<rparr>)
            else Inr (s\<lparr>time := time s + 1, misses := misses s + 1\<rparr>))
       (\<lambda>s1. Inr (False, s1\<lparr>tdc_cache := AList.update item 1 (tdc_cache s1),
            last_update_time := AList.update item (time s1) (last_update_time s1)\<rparr>))"
  by (simp add: TDC_access_def Let_def)

lemma tdc_frame_refl [simp]: "tdc_frame s s"
  by (simp add: tdc_frame_def)

lemma tdc_frame_trans: "tdc_frame s s1 \<Longrightarrow> tdc_frame s1 s2 \<Longrightarrow> tdc_frame s s2"
  by (simp add: tdc_frame_def)

lemma update_score_in_cache:
  "update_score s k = Inr sc \<Longrightarrow> k \<in> set (dict_keys (tdc_cache s)) \<Longrightarrow>
     k \<in> set (dict_keys (last_update_time s))"
  by (auto simp: update_score_def dict_getitem_def dict_keys_def bindE_eq_Inr
      split: option.splits dest: map_of_SomeD intro: rev_image_eqI)

lemma dict_keys_update:
  "k \<in> set (dict_keys d) \<Longrightarrow> dict_keys (AList.update k v d) = dict_keys d"
  by (simp add: dict_keys_def update_keys)

lemma length_dict_keys [simp]: "length (dict_keys d) = length d"
  by (simp add: dict_keys_def)

lemma rescan_keys:
  "rescan s ks acc = Inr (s', acc') \<Longrightarrow> set ks \<subseteq> set (dict_keys (tdc_cache s)) \<Longrightarrow>
     tdc_frame s s' \<and> dict_keys (tdc_cache s') = dict_keys (tdc_cache s) \<and>
     dict_keys (last_update_time s') = dict_keys (last_update_time s)"
proof (induction ks arbitrary: s acc)
  case Nil
  then show ?case by simp
next
  case (Cons k ks)
  obtain ms mi where acc: "acc = (ms, mi)" by (cases acc)
  from Cons.prems(2) have k: "k \<in> set (dict_keys (tdc_cache s))"
    and ks: "set ks \<subseteq> set (dict_keys (tdc_cache s))" by simp_all
  from Cons.prems(1) obtain score where sc: "update_score s k = Inr score"
    unfolding acc by (auto simp: bindE_eq_Inr)
  define s1 where "s1 = s\<lparr>tdc_cache := AList.update k score (tdc_cache s),
      last_update_time := AList.update k (time s) (last_update_time s)\<rparr>"
  from Cons.prems(1) sc obtain acc1 where rec: "rescan s1 ks acc1 = Inr (s', acc')"
    unfolding acc s1_def by (auto simp: Let_def split: if_splits)
  have k2: "k \<in> set (dict_keys (last_update_time s))"
    using sc k by (rule update_score_in_cache)
  have keys1: "dict_keys (tdc_cache s1) = dict_keys (tdc_cache s)"
      "dict_keys (last_update_time s1) = dict_keys (last_update_time s)"
    using k k2 by (simp_all add: s1_def dict_keys_update)
  have fr1: "tdc_frame s s1" by (simp add: s1_def tdc_frame_def)
  from Cons.IH[OF rec] ks keys1 fr1 show ?case
    by (auto intro: tdc_frame_trans)
qed

lemma rescan_min_item_mem:
  "rescan s ks (ms, mi) = Inr (s', ms', mi') \<Longrightarrow> mi' = mi \<or> (\<exists>k \<in> set ks. mi' = Some k)"
proof (induction ks arbitrary: s ms mi)
  case Nil
  then show ?case by simp
next
  case (Cons k ks)
  from Cons.prems obtain s1 ms1 mi1 where rec: "rescan s1 ks (ms1, mi1) = Inr (s', ms', mi')"
    and mi1: "mi1 = mi \<or> mi1 = Some k"
    by (auto simp: bindE_eq_Inr Let_def split: if_splits)
  from Cons.IH[OF rec] mi1 show ?case by auto
qed

lemma rescan_min_item_found:
  "rescan s ks (ms, mi) = Inr (s', ms', mi') \<Longrightarrow> mi \<noteq> None \<or> (ms = None \<and> ks \<noteq> []) \<Longrightarrow>
     mi' \<noteq> None"
proof (induction ks arbitrary: s ms mi)
  case Nil
  then show ?case by simp
next
  case (Cons k ks)
  from Cons.prems obtain s1 ms1 mi1 where rec: "rescan s1 ks (ms1, mi1) = Inr (s', ms', mi')"
    and mi1: "mi1 \<noteq> None"
    by (auto simp: bindE_eq_Inr Let_def split: if_splits option.splits)
  from Cons.IH[OF rec] mi1 show ?case by simp
qed

lemma length_delete_less:
  "k \<in> set (dict_keys d) \<Longrightarrow> length (AList.delete k d) < length d"
proof (induction d)
  case Nil
  then show ?case by (simp add: dict_keys_def)
next
  case (Cons p d)
  show ?case
  proof (cases "fst p = k")
    case True
    then show ?thesis using AList.length_delete_le[of k d] by simp
  next
    case False
    with Cons.prems have "k \<in> set (dict_keys d)" by (simp add: dict_keys_def)
    from Cons.IH[OF this] False show ?thesis by simp
  qed
qed

lemma TDC_evict_effect:
  assumes "TDC_evict s = Inr s'"
  shows "tdc_frame s s'"
    and "tdc_cache s \<noteq> [] \<Longrightarrow> length (tdc_cache s') < length (tdc_cache s)"
proof -
  from assms obtain s1 ms mi where rs: "rescan s (dict_keys (tdc_cache s)) (None, None) = Inr (s1, ms, mi)"
    and fin: "(case mi of None \<Rightarrow> Inr s1
       | Some k \<Rightarrow> bindE (dict_delitem k (tdc_cache s1)) (\<lambda>c'.
           bindE (dict_delitem k (last_update_time s1)) (\<lambda>l'.
             Inr (s1\<lparr>tdc_cache := c', last_update_time := l'\<rparr>)))) = Inr s'"
    unfolding TDC_evict_def bindE_eq_Inr by auto
  from rescan_keys[OF rs] have fr: "tdc_frame s s1"
    and keys: "dict_keys (tdc_cache s1) = dict_keys (tdc_cache s)" by simp_all
  from keys have len: "length (tdc_cache s1) = length (tdc_cache s)"
    by (metis length_dict_keys)
  show "tdc_frame s s'"
    using fin fr by (auto simp: tdc_frame_def bindE_eq_Inr split: option.splits)
  assume ne: "tdc_cache s \<noteq> []"
  then have "dict_keys (tdc_cache s) \<noteq> []" by (simp add: dict_keys_def)
  with rescan_min_item_found[OF rs] obtain k where mi: "mi = Some k" by auto
  with fin obtain c' l' where "dict_delitem k (tdc_cache s1) = Inr c'"
    and s': "s' = s1\<lparr>tdc_cache := c', last_update_time := l'\<rparr>"
    by (auto simp: bindE_eq_Inr)
  then have "k \<in> set (dict_keys (tdc_cache s1))" "c' = AList.delete k (tdc_cache s1)"
    by (auto simp: dict_delitem_def split: if_splits)
  with length_delete_less[of k "tdc_cache s1"] len s'
  show "length (tdc_cache s') < length (tdc_cache s)" by simp
qed

lemma TDC_access_counters:
  assumes "TDC_access s item = Inr (hit, s')"
  shows "capacity s' = capacity s \<and> time s' = time s + 1 \<and>
     hits s' = hits s + (if hit then 1 else 0) \<and>
     misses s' = misses s + (if hit then 0 else 1) \<and> decay_rate s' = decay_rate s"
proof (cases "item \<in> set (dict_keys (tdc_cache s))")
  case True
  with assms show ?thesis
    by (auto simp: TDC_access_hit bindE_eq_Inr)
next
  case False
  from assms obtain s1 where
    ev: "(if int (length (tdc_cache s)) \<ge> capacity s
            then TDC_evict (s\<lparr>time := time s + 1, misses := misses s + 1\<rparr>)
            else Inr (s\<lparr>time := time s + 1, misses := misses s + 1\<rparr>)) = Inr s1"
    and r: "hit = False" "s' = s1\<lparr>tdc_cache := AList.update item 1 (tdc_cache s1),
            last_update_time := AList.update item (time s1) (last_update_time s1)\<rparr>"
    unfolding TDC_access_miss[OF False] bindE_eq_Inr by auto
  from ev have "tdc_frame (s\<lparr>time := time s + 1, misses := misses s + 1\<rparr>) s1"
    by (auto split: if_splits dest!: TDC_evict_effect(1))
  then show ?thesis by (simp add: r tdc_frame_def)
qed


lemma arc_frame_trans: "arc_frame s s1 \<Longrightarrow> arc_frame s1 s2 \<Longrightarrow> arc_frame s s2"
  by (simp add: arc_frame_def)

lemma ARC_replace_frame: "ARC_replace in_b2 s = Inr s' \<Longrightarrow> arc_frame s s'"
  by (drule ARC_replace_effect) (auto simp: evicted1_def evicted2_def)

lemma ARC_free_slot_frame: "ARC_free_slot s = Inr s' \<Longrightarrow> arc_frame s s'"
  by (auto simp: ARC_free_slot_def evicted1_def evicted2_def split: if_splits
      dest!: evict_t1_effect evict_t2_effect)

lemma ARC_make_room_frame:
  assumes run: "ARC_make_room s = Inr s'"
  shows "arc_frame s s'"
proof -
  let ?l1 = "int (length (arc_t1 s)) + int (length (arc_b1 s))"
  let ?l2 = "int (length (arc_t2 s)) + int (length (arc_b2 s))"
  consider (ghost) "?l1 = arc_c s" "int (length (arc_t1 s)) < arc_c s"
    | (full) "?l1 = arc_c s" "\<not> int (length (arc_t1 s)) < arc_c s"
    | (mid) "?l1 \<noteq> arc_c s" "?l1 < arc_c s \<and> ?l1 + ?l2 \<ge> arc_c s"
    | (free) "?l1 \<noteq> arc_c s" "\<not> (?l1 < arc_c s \<and> ?l1 + ?l2 \<ge> arc_c s)"
    by blast
  then show ?thesis
  proof cases
    case ghost
    with run obtain x r where "ARC_replace False (s\<lparr>arc_b1 := r\<rparr>) = Inr s'"
      by (auto simp: ARC_make_room_def Let_def bindE_eq_Inr)
    from ARC_replace_frame[OF this] show ?thesis by (simp add: arc_frame_def)
  next
    case full
    with run obtain x r where "s' = s\<lparr>arc_t1 := r\<rparr>"
      by (auto simp: ARC_make_room_def Let_def bindE_eq_Inr)
    then show ?thesis by (simp add: arc_frame_def)
  next
    case mid
    show ?thesis
    proof (cases "?l1 + ?l2 \<ge> 2 * arc_c s \<and> arc_b2 s \<noteq> []")
      case True
      with run mid obtain x r where "ARC_replace False (s\<lparr>arc_b2 := r\<rparr>) = Inr s'"
        by (auto simp: ARC_make_room_def Let_def bindE_eq_Inr)
      from ARC_replace_frame[OF this] show ?thesis by (simp add: arc_frame_def)
    next
      case False
      with run mid have "ARC_replace False s = Inr s'"
        by (auto simp: ARC_make_room_def Let_def)
      then show ?thesis by (rule ARC_replace_frame)
    qed
  next
    case free
    with run have "s' = s" by (auto simp: ARC_make_room_def Let_def)
    then show ?thesis by simp
  qed
qed

lemma ARC_access_counters:
  assumes run: "ARC_access s item = Inr (hit, s')"
  shows "capacity s' = capacity s \<and> time s' = time s + 1 \<and>
     hits s' = hits s + (if hit then 1 else 0) \<and>
     misses s' = misses s + (if hit then 0 else 1) \<and> arc_c s' = arc_c s"
proof -
  consider (t1) "item \<in> set (arc_t1 s)"
    | (t2) "item \<notin> set (arc_t1 s)" "item \<in> set (arc_t2 s)"
    | (b1) "item \<notin> set (arc_t1 s)" "item \<notin> set (arc_t2 s)" "item \<in> set (arc_b1 s)"
    | (b2) "item \<notin> set (arc_t1 s)" "item \<notin> set (arc_t2 s)" "item \<notin> set (arc_b1 s)"
           "item \<in> set (arc_b2 s)"
    | (new) "item \<notin> set (arc_t1 s)" "item \<notin> set (arc_t2 s)" "item \<notin> set (arc_b1 s)"
           "item \<notin> set (arc_b2 s)"
    by blast
  then show ?thesis
  proof cases
    case t1
    with run show ?thesis by (auto simp: ARC_access_t1)
  next
    case t2
    with run show ?thesis by (auto simp: ARC_access_t2)
  next
    case b1
    define q where "q = min (arc_c s) (arc_p s + max 1 (int (length (arc_b2 s)) div max 1 (int (length (arc_b1 s)))))"
    define s1 where "s1 = s\<lparr>time := time s + 1, misses := misses s + 1, arc_p := q\<rparr>"
    from run obtain s2 where rep: "ARC_replace False s1 = Inr s2"
      and s': "s' = s2\<lparr>arc_b1 := remove1 item (arc_b1 s2), arc_t2 := od_setitem item (arc_t2 s2)\<rparr>"
      and h: "\<not> hit"
      unfolding ARC_access_b1[OF b1] s1_def q_def by (rule ghost_result)
    from ARC_replace_frame[OF rep] h show ?thesis
      by (simp add: s' s1_def arc_frame_def)
  next
    case b2
    define q where "q = max 0 (arc_p s - max 1 (int (length (arc_b1 s)) div max 1 (int (length (arc_b2 s)))))"
    define s1 where "s1 = s\<lparr>time := time s + 1, misses := misses s + 1, arc_p := q\<rparr>"
    from run obtain s2 where rep: "ARC_replace True s1 = Inr s2"
      and s': "s' = s2\<lparr>arc_b2 := remove1 item (arc_b2 s2), arc_t2 := od_setitem item (arc_t2 s2)\<rparr>"
      and h: "\<not> hit"
      unfolding ARC_access_b2[OF b2] s1_def q_def by (rule ghost_result)
    from ARC_replace_frame[OF rep] h show ?thesis
      by (simp add: s' s1_def arc_frame_def)
  next
    case new
    define s1 where "s1 = s\<lparr>time := time s + 1, misses := misses s + 1\<rparr>"
    from run obtain s2 s3 where mr: "ARC_make_room s1 = Inr s2"
      and fs: "ARC_free_slot s2 = Inr s3"
      and s': "s' = s3\<lparr>arc_t1 := od_setitem item (arc_t1 s3)\<rparr>" and h: "\<not> hit"
      unfolding ARC_access_new[OF new] bindE_eq_Inr s1_def by auto
    from ARC_make_room_frame[OF mr] ARC_free_slot_frame[OF fs] h show ?thesis
      by (simp add: s' s1_def arc_frame_def)
  qed
qed


lemma lift_result_Inr:
  "lift_result C r = Inr (hit, p) \<longleftrightarrow> (\<exists>s. r = Inr (hit, s) \<and> p = C s)"
  by (cases r) (auto simp: lift_result_def)

lemma access_cases:
  assumes "access s item = Inr (hit, s')"
  obtains (LRU) a a' where "s = LRU a" "s' = LRU a'" "LRU_access a item = Inr (hit, a')"
    | (LFU) a a' where "s = LFU a" "s' = LFU a'" "LFU_access a item = Inr (hit, a')"
    | (ARC) a a' where "s = ARC a" "s' = ARC a'" "ARC_access a item = Inr (hit, a')"
    | (TDC) a a' where "s = TDC a" "s' = TDC a'" "TDC_access a item = Inr (hit, a')"
  using assms by (cases s) (auto simp: lift_result_Inr)

lemma access_counters:
  assumes "access s item = Inr (hit, s')"
  shows "capacity_of s' = capacity_of s" "time_of s' = time_of s + 1"
    "hits_of s' = hits_of s + (if hit then 1 else 0)"
    "misses_of s' = misses_of s + (if hit then 0 else 1)"
  using assms
  by (cases rule: access_cases;
      simp add: LRU_access_counters LFU_access_counters ARC_access_counters TDC_access_counters)+

lemma access_built_with:
  assumes "access s item = Inr (hit, s')" "built_with prm s"
  shows "built_with prm s'"
  using assms
  by (cases rule: access_cases; cases prm;
      simp add: LRU_access_counters LFU_access_counters ARC_access_counters TDC_access_counters)

lemma access_counters_ok:
  assumes "access s item = Inr (hit, s')" "counters_ok s"
  shows "counters_ok s'"
  using access_counters[OF assms(1)] assms(2) by (auto simp: counters_ok_def)


lemma construct_built_with: "built_with prm (construct prm)"
  by (cases prm) (simp_all add: LRU_init_def LFU_init_def ARC_init_def TDC_init_def)

lemma construct_counters_ok: "counters_ok (construct prm)"
  by (cases prm) (simp_all add: counters_ok_def LRU_init_def LFU_init_def ARC_init_def TDC_init_def)

lemma reset_is_construct: "built_with prm s \<Longrightarrow> reset s = construct prm"
  by (cases prm; cases s)
     (simp_all add: LRU_reset_def LFU_reset_def ARC_reset_def TDC_reset_def
        LRU_init_def LFU_init_def ARC_init_def TDC_init_def)

lemma reachable_built_with: "reachable prm s \<Longrightarrow> built_with prm s"
proof (induction rule: reachable.induct)
  case reachable_init
  show ?case by (rule construct_built_with)
next
  case (reachable_access s item hit s')
  then show ?case by (auto intro: access_built_with)
next
  case (reachable_reset s)
  then show ?case by (simp add: reset_is_construct construct_built_with)
qed

lemma reachable_counters_ok: "reachable prm s \<Longrightarrow> counters_ok s"
proof (induction rule: reachable.induct)
  case reachable_init
  show ?case by (rule construct_counters_ok)
next
  case (reachable_access s item hit s')
  then show ?case by (auto intro: access_counters_ok)
next
  case (reachable_reset s)
  then show ?case
    using reachable_built_with[of prm s] by (simp add: reset_is_construct construct_counters_ok)
qed

lemma run_trace_Cons_Inr:
  "run_trace s (item # rest) = Inr (outs, s'') \<longleftrightarrow>
     (\<exists>hit s' outs'. access s item = Inr (hit, s') \<and> run_trace s' rest = Inr (outs', s'') \<and>
        outs = hit # outs')"
  by (auto simp: bindE_eq_Inr)

lemma run_trace_reachable:
  "reachable prm s \<Longrightarrow> run_trace s trace = Inr (outs, s') \<Longrightarrow> reachable prm s'"
proof (induction trace arbitrary: s outs)
  case Nil
  then show ?case by simp
next
  case (Cons item rest)
  from Cons.prems(2) obtain hit s1 outs1 where a: "access s item = Inr (hit, s1)"
    and r: "run_trace s1 rest = Inr (outs1, s')"
    unfolding run_trace_Cons_Inr by blast
  from Cons.prems(1) a have "reachable prm s1" by (rule reachable_access)
  from Cons.IH[OF this r] show ?case .
qed

lemma LRU_access_size:
  assumes "LRU_access s item = Inr (hit, s')" "int (length (lru_cache s)) \<le> capacity s"
  shows "int (length (lru_cache s')) \<le> capacity s'"
proof (cases "item \<in> set (lru_cache s)")
  case True
  with assms length_remove1_mem[OF True] show ?thesis by (auto simp: LRU_access_hit)
next
  case False
  with assms show ?thesis by (auto simp: LRU_access_miss split: if_splits list.splits)
qed

lemma length_update:
  "length (AList.update k v d) = (if k \<in> set (dict_keys d) then length d else Suc (length d))"
  using arg_cong[OF AList.update_keys[of k v d], of length] by (simp add: dict_keys_def)

lemma length_update_le: "length (AList.update k v d) \<le> Suc (length d)"
  by (simp add: length_update)

lemma length_update_mem:
  "k \<in> set (dict_keys d) \<Longrightarrow> length (AList.update k v d) = length d"
  by (simp add: length_update)

lemma map_of_dict_keys: "map_of d k = Some v \<Longrightarrow> k \<in> set (dict_keys d)"
  by (auto simp: dict_keys_def dest!: map_of_SomeD intro: rev_image_eqI)

lemma LFU_access_size:
  assumes run: "LFU_access s item = Inr (hit, s')"
    and inv: "int (length (lfu_cache s)) \<le> capacity s"
  shows "int (length (lfu_cache s')) \<le> capacity s'"
proof (cases "item \<in> set (dict_keys (lfu_cache s))")
  case True
  with run have "LFU_hit (s\<lparr>time := time s + 1\<rparr>) item = Inr (hit, s')"
    by (simp add: LFU_access_hit)
  then obtain freq where "lfu_cache s' = AList.update item freq (lfu_cache s)"
    "capacity s' = capacity s"
    by (auto simp: LFU_hit_eq Let_def split: option.splits if_splits)
  with True inv show ?thesis by (simp add: length_update_mem)
next
  case False
  from run obtain s1 where
    ev: "(if int (length (lfu_cache s)) \<ge> capacity s
            then LFU_evict (s\<lparr>time := time s + 1, misses := misses s + 1\<rparr>)
            else Inr (s\<lparr>time := time s + 1, misses := misses s + 1\<rparr>)) = Inr s1"
    and s': "s' = s1\<lparr>lfu_cache := AList.update item 1 (lfu_cache s1),
            freq_to_items := (freq_to_items s1)(1 \<mapsto> od_setitem item (bucket (freq_to_items s1) 1)),
            min_freq := 1\<rparr>"
    unfolding LFU_access_miss[OF False] bindE_eq_Inr by auto
  have "int (length (lfu_cache s1)) < capacity s \<and> capacity s1 = capacity s"
  proof (cases "int (length (lfu_cache s)) \<ge> capacity s")
    case True
    with ev obtain e where "e \<in> set (dict_keys (lfu_cache s))"
      "lfu_cache s1 = AList.delete e (lfu_cache s)" "capacity s1 = capacity s"
      by (auto simp: LFU_evict_eq split: list.splits if_splits)
    with length_delete_less[of e "lfu_cache s"] inv show ?thesis by simp
  next
    case False
    with ev show ?thesis by auto
  qed
  with length_update_le[of item 1 "lfu_cache s1"] show ?thesis by (simp add: s')
qed

lemma TDC_access_size:
  assumes run: "TDC_access s item = Inr (hit, s')"
    and inv: "int (length (tdc_cache s)) \<le> capacity s" and pos: "0 < capacity s"
  shows "int (length (tdc_cache s')) \<le> capacity s'"
proof (cases "item \<in> set (dict_keys (tdc_cache s))")
  case True
  with run inv show ?thesis
    by (auto simp: TDC_access_hit bindE_eq_Inr length_update_mem)
next
  case False
  define s0 where "s0 = s\<lparr>time := time s + 1, misses := misses s + 1\<rparr>"
  from run obtain s1 where
    ev: "(if int (length (tdc_cache s)) \<ge> capacity s then TDC_evict s0 else Inr s0) = Inr s1"
    and s': "s' = s1\<lparr>tdc_cache := AList.update item 1 (tdc_cache s1),
            last_update_time := AList.update item (time s1) (last_update_time s1)\<rparr>"
    unfolding TDC_access_miss[OF False] bindE_eq_Inr s0_def by auto
  have "int (length (tdc_cache s1)) < capacity s \<and> capacity s1 = capacity s"
  proof (cases "int (length (tdc_cache s)) \<ge> capacity s")
    case True
    with ev have e: "TDC_evict s0 = Inr s1" by simp
    from True pos have "tdc_cache s0 \<noteq> []" by (auto simp: s0_def)
    from TDC_evict_effect[OF e] this inv show ?thesis
      by (simp add: s0_def tdc_frame_def)
  next
    case False
    with ev show ?thesis by (auto simp: s0_def)
  qed
  with length_update_le[of item 1 "tdc_cache s1"] show ?thesis by (simp add: s')
qed

lemma access_size_inv:
  assumes "access s item = Inr (hit, s')" "size_inv s"
  shows "size_inv s'"
  using assms
proof (cases rule: access_cases)
  case (LRU a a')
  with assms(2) LRU_access_size[OF LRU(3)] LRU_access_counters[OF LRU(3)] show ?thesis by simp
next
  case (LFU a a')
  with assms(2) LFU_access_size[OF LFU(3)] LFU_access_counters[OF LFU(3)] show ?thesis by simp
next
  case (ARC a a')
  with assms(2) ARC_access_inv[OF ARC(3)] show ?thesis by simp
next
  case (TDC a a')
  with assms(2) TDC_access_size[OF TDC(3)] TDC_access_counters[OF TDC(3)] show ?thesis by simp
qed

lemma construct_size_inv: "0 < capacity_param prm \<Longrightarrow> size_inv (construct prm)"
  by (cases prm) (simp_all add: LRU_init_def LFU_init_def ARC_init_def TDC_init_def ARC_inv_def)

lemma reachable_size_inv: "reachable prm s \<Longrightarrow> 0 < capacity_param prm \<Longrightarrow> size_inv s"
proof (induction rule: reachable.induct)
  case reachable_init
  then show ?case by (rule construct_size_inv)
next
  case (reachable_access s item hit s')
  then show ?case by (auto intro: access_size_inv)
next
  case (reachable_reset s)
  then show ?case
    using reachable_built_with[of prm s] by (simp add: reset_is_construct construct_size_inv)
qed



lemmas policy_eval = lift_result_def outcomes_def Let_def
  od_move_to_end_def od_popitem_first_def od_setitem_def od_delitem_def
  dict_keys_def dict_getitem_def dict_delitem_def next_iter_def bucket_def

lemmas arc_eval = ARC_access_def ARC_init_def ARC_replace_def ARC_make_room_def
  ARC_free_slot_def evict_t1_to_b1_def evict_t2_to_b2_def policy_eval


lemmas tdc_eval = TDC_access_def TDC_init_def TDC_evict_def update_score_def py_pow_def
  default_decay_rate_def policy_eval



section \<open>Statistics, reset and hits\<close>





lemma stats_construct: "stats (construct prm) = Inr (0, 0, 0)"
  by (cases prm)
     (simp_all add: get_stats_def get_hit_ratio_def LRU_init_def LFU_init_def ARC_init_def
        TDC_init_def)

text \<open>
  C4: in every reachable state, after reset the statistics are hits = 0, misses = 0,
  hit ratio = 0.0, and every later access sequence gives the outcomes a freshly
  constructed instance with the same parameters gives.
\<close>

theorem reset_like_fresh:
  assumes "reachable prm s"
  shows "stats (reset s) = Inr (0, 0, 0) \<and>
         outcomes (reset s) trace = outcomes (construct prm) trace"
proof -
  from assms have "built_with prm s" by (rule reachable_built_with)
  then have "reset s = construct prm" by (rule reset_is_construct)
  then show ?thesis by (simp add: stats_construct)
qed

theorem reset_like_fresh_witness:
  "\<exists>outs s. run_trace (construct (ARC_params 2)) [1, 1, 2, 3, 2] = Inr (outs, s) \<and>
     hits_of s = 1 \<and> stats (reset s) = Inr (0, 0, 0) \<and>
     outcomes (reset s) [1, 2, 1] = outcomes (construct (ARC_params 2)) [1, 2, 1]"
proof -
  have "\<exists>outs s. run_trace (construct (ARC_params 2)) [1, 1, 2, 3, 2] = Inr (outs, s) \<and>
      hits_of s = 1"
    by (simp add: arc_eval)
  then obtain outs s where r: "run_trace (construct (ARC_params 2)) [1, 1, 2, 3, 2] = Inr (outs, s)"
    and h: "hits_of s = 1" by blast
  from run_trace_reachable[OF reachable_init r] have "reachable (ARC_params 2) s" .
  from reset_like_fresh[OF this, of "[1, 2, 1]"] r h show ?thesis by blast
qed

lemma hit_ratio_eq:
  "hit_ratio s = (if 0 < hits_of s + misses_of s
     then Inr (real_of_int (hits_of s) / real_of_int (hits_of s + misses_of s)) else Inr 0)"
  by (cases s) (simp_all add: get_hit_ratio_def py_truediv_def Let_def)

text \<open>
  C8: in every reachable state the hit ratio is hits / (hits + misses) once at least one
  access has been made, and 0.0 when none has (hits + misses = 0); the division is
  never by zero.
\<close>

theorem hit_ratio_value:
  assumes "reachable prm s"
  shows "0 \<le> time_of s \<and> hits_of s + misses_of s = time_of s \<and>
         (time_of s = 0 \<longrightarrow> hit_ratio s = Inr 0) \<and>
         (0 < time_of s \<longrightarrow>
            hit_ratio s = Inr (real_of_int (hits_of s) / real_of_int (hits_of s + misses_of s)))"
proof -
  from assms have "counters_ok s" by (rule reachable_counters_ok)
  then show ?thesis by (auto simp: counters_ok_def hit_ratio_eq)
qed

theorem hit_ratio_value_witness:
  "\<exists>outs s. run_trace (construct (LRU_params 3)) [1, 2, 3, 1] = Inr (outs, s) \<and>
     0 < time_of s \<and> hit_ratio s = Inr (1 / 4) \<and>
     time_of (reset s) = 0 \<and> hit_ratio (reset s) = Inr 0"
proof -
  have "\<exists>outs s. run_trace (construct (LRU_params 3)) [1, 2, 3, 1] = Inr (outs, s) \<and>
      hits_of s = 1 \<and> misses_of s = 3 \<and> time_of s = 4 \<and> time_of (reset s) = 0"
    by (simp add: lru_eval LRU_reset_def)
  then obtain outs s where r: "run_trace (construct (LRU_params 3)) [1, 2, 3, 1] = Inr (outs, s)"
    and c: "hits_of s = 1" "misses_of s = 3" "time_of s = 4" "time_of (reset s) = 0" by blast
  from run_trace_reachable[OF reachable_init r] have rs: "reachable (LRU_params 3) s" .
  then have rr: "reachable (LRU_params 3) (reset s)" by (rule reachable_reset)
  from hit_ratio_value[OF rs] hit_ratio_value[OF rr] r c show ?thesis by auto
qed



lemma set_remove1_insert: "x \<in> set xs \<Longrightarrow> insert x (set (remove1 x xs)) = set xs"
  by (induction xs) auto

lemma set_od_setitem [simp]: "set (od_setitem k d) = insert k (set d)"
  by (auto simp: od_setitem_def)

lemma LRU_access_miss_False:
  "item \<notin> set (lru_cache s) \<Longrightarrow> LRU_access s item = Inr (hit, s') \<Longrightarrow> \<not> hit"
  by (cases "lru_cache s"; cases "int (length (lru_cache s)) \<ge> capacity s")
     (auto simp: LRU_access_miss)

lemma LRU_access_True:
  assumes "LRU_access s item = Inr (True, s')"
  shows "item \<in> set (lru_cache s) \<and> set (lru_cache s') = set (lru_cache s)"
proof (cases "item \<in> set (lru_cache s)")
  case True
  from assms have "s' = s\<lparr>time := time s + 1, lru_cache := remove1 item (lru_cache s) @ [item],
      hits := hits s + 1\<rparr>"
    by (simp add: LRU_access_hit[OF True])
  then have "set (lru_cache s') = insert item (set (remove1 item (lru_cache s)))" by simp
  with set_remove1_insert[OF True] True show ?thesis by simp
next
  case False
  from LRU_access_miss_False[OF False assms] show ?thesis by simp
qed

lemma LFU_access_True:
  assumes "LFU_access s item = Inr (True, s')"
  shows "item \<in> set (dict_keys (lfu_cache s)) \<and>
         dict_keys (lfu_cache s') = dict_keys (lfu_cache s)"
proof (cases "item \<in> set (dict_keys (lfu_cache s))")
  case True
  with assms have "LFU_hit (s\<lparr>time := time s + 1\<rparr>) item = Inr (True, s')"
    by (simp add: LFU_access_hit)
  then obtain freq where "lfu_cache s' = AList.update item freq (lfu_cache s)"
    by (auto simp: LFU_hit_eq Let_def split: option.splits if_splits)
  with True show ?thesis by (simp add: dict_keys_update)
next
  case False
  with assms show ?thesis by (auto simp: LFU_access_miss bindE_eq_Inr)
qed

lemma TDC_access_True:
  assumes "TDC_access s item = Inr (True, s')"
  shows "item \<in> set (dict_keys (tdc_cache s)) \<and>
         dict_keys (tdc_cache s') = dict_keys (tdc_cache s)"
proof (cases "item \<in> set (dict_keys (tdc_cache s))")
  case True
  with assms show ?thesis by (auto simp: TDC_access_hit bindE_eq_Inr dict_keys_update)
next
  case False
  with assms show ?thesis by (auto simp: TDC_access_miss bindE_eq_Inr)
qed

lemma ARC_access_True:
  assumes run: "ARC_access s item = Inr (True, s')"
  shows "item \<in> set (arc_t1 s) \<union> set (arc_t2 s) \<and>
         set (arc_t1 s') \<union> set (arc_t2 s') = set (arc_t1 s) \<union> set (arc_t2 s) \<and>
         arc_b1 s' = arc_b1 s \<and> arc_b2 s' = arc_b2 s \<and> arc_p s' = arc_p s"
proof -
  consider (t1) "item \<in> set (arc_t1 s)"
    | (t2) "item \<notin> set (arc_t1 s)" "item \<in> set (arc_t2 s)"
    | (b1) "item \<notin> set (arc_t1 s)" "item \<notin> set (arc_t2 s)" "item \<in> set (arc_b1 s)"
    | (b2) "item \<notin> set (arc_t1 s)" "item \<notin> set (arc_t2 s)" "item \<notin> set (arc_b1 s)"
           "item \<in> set (arc_b2 s)"
    | (new) "item \<notin> set (arc_t1 s)" "item \<notin> set (arc_t2 s)" "item \<notin> set (arc_b1 s)"
           "item \<notin> set (arc_b2 s)"
    by blast
  then show ?thesis
  proof cases
    case t1
    from run have s': "s' = s\<lparr>time := time s + 1, arc_t1 := remove1 item (arc_t1 s),
        arc_t2 := od_setitem item (arc_t2 s), hits := hits s + 1\<rparr>"
      by (simp add: ARC_access_t1[OF t1])
    from set_remove1_insert[OF t1] t1 show ?thesis unfolding s' by auto
  next
    case t2
    from run have s': "s' = s\<lparr>time := time s + 1, arc_t2 := remove1 item (arc_t2 s) @ [item],
        hits := hits s + 1\<rparr>"
      by (simp add: ARC_access_t2[OF t2])
    from set_remove1_insert[OF t2(2)] t2 show ?thesis unfolding s' by auto
  next
    case b1
    from run have False
      unfolding ARC_access_b1[OF b1] by (rule ghost_result) simp
    then show ?thesis ..
  next
    case b2
    from run have False
      unfolding ARC_access_b2[OF b2] by (rule ghost_result) simp
    then show ?thesis ..
  next
    case new
    from run have False
      unfolding ARC_access_new[OF new] bindE_eq_Inr by auto
    then show ?thesis ..
  qed
qed

text \<open>
  C10: when access returns true, the item was resident and the resident set is the
  same after the call: nothing is evicted or inserted. Capacity, misses, and (for the
  adaptive policy) the ghost lists and the target p are unchanged; hits and time grow
  by one.
\<close>

theorem hit_keeps_residents:
  assumes "access s item = Inr (True, s')"
  shows "item \<in> resident s \<and> resident s' = resident s \<and>
         adaptation_state s' = adaptation_state s \<and>
         capacity_of s' = capacity_of s \<and> misses_of s' = misses_of s \<and>
         hits_of s' = hits_of s + 1 \<and> time_of s' = time_of s + 1"
proof -
  have "item \<in> resident s \<and> resident s' = resident s \<and>
      adaptation_state s' = adaptation_state s"
    using assms
  proof (cases rule: access_cases)
    case (LRU a a')
    with LRU_access_True[OF LRU(3)] show ?thesis by simp
  next
    case (LFU a a')
    with LFU_access_True[OF LFU(3)] show ?thesis by simp
  next
    case (ARC a a')
    with ARC_access_True[OF ARC(3)] show ?thesis by simp
  next
    case (TDC a a')
    with TDC_access_True[OF TDC(3)] show ?thesis by simp
  qed
  with access_counters[OF assms] show ?thesis by simp
qed

theorem hit_keeps_residents_witness:
  "\<exists>outs s s'. run_trace (construct (ARC_params 2)) [1, 2] = Inr (outs, s) \<and>
     access s 1 = Inr (True, s') \<and> resident s = {1, 2} \<and> resident s' = {1, 2}"
proof -
  have "\<exists>outs s s'. run_trace (construct (ARC_params 2)) [1, 2] = Inr (outs, s) \<and>
     access s 1 = Inr (True, s') \<and> resident s = {1, 2}"
    by (simp add: arc_eval insert_commute)
  then obtain outs s s' where r: "run_trace (construct (ARC_params 2)) [1, 2] = Inr (outs, s)"
    and a: "access s 1 = Inr (True, s')" and res: "resident s = {1, 2}" by blast
  from hit_keeps_residents[OF a] r a res show ?thesis by auto
qed

lemma ARC_access_p_mono:
  assumes run: "ARC_access s item = Inr (hit, s')" and inv: "ARC_inv s"
    and mem: "item \<in> set (arc_t1 s) \<or> item \<in> set (arc_t2 s) \<or> item \<in> set (arc_b1 s)"
  shows "arc_p s \<le> arc_p s'"
proof -
  from mem consider (t1) "item \<in> set (arc_t1 s)"
    | (t2) "item \<notin> set (arc_t1 s)" "item \<in> set (arc_t2 s)"
    | (b1) "item \<notin> set (arc_t1 s)" "item \<notin> set (arc_t2 s)" "item \<in> set (arc_b1 s)"
    by blast
  then show ?thesis
  proof cases
    case t1
    from run have "s' = s\<lparr>time := time s + 1, arc_t1 := remove1 item (arc_t1 s),
        arc_t2 := od_setitem item (arc_t2 s), hits := hits s + 1\<rparr>"
      by (simp add: ARC_access_t1[OF t1])
    then show ?thesis by simp
  next
    case t2
    from run have "s' = s\<lparr>time := time s + 1, arc_t2 := remove1 item (arc_t2 s) @ [item],
        hits := hits s + 1\<rparr>"
      by (simp add: ARC_access_t2[OF t2])
    then show ?thesis by simp
  next
    case b1
    define q where "q = min (arc_c s) (arc_p s + max 1 (int (length (arc_b2 s)) div max 1 (int (length (arc_b1 s)))))"
    define s1 where "s1 = s\<lparr>time := time s + 1, misses := misses s + 1, arc_p := q\<rparr>"
    from run obtain s2 where rep: "ARC_replace False s1 = Inr s2"
      and s': "s' = s2\<lparr>arc_b1 := remove1 item (arc_b1 s2), arc_t2 := od_setitem item (arc_t2 s2)\<rparr>"
      unfolding ARC_access_b1[OF b1] s1_def q_def by (rule ghost_result)
    from inv have "arc_p s \<le> arc_c s" by (simp add: ARC_inv_def)
    then have "arc_p s \<le> q" by (simp add: q_def min_def max_def)
    moreover from ARC_replace_frame[OF rep] have "arc_p s' = q"
      by (simp add: s' s1_def arc_frame_def)
    ultimately show ?thesis by simp
  qed
qed

lemma ARC_run_p_sorted:
  "ARC_inv s \<Longrightarrow> misses_only_in_b1 s trace \<Longrightarrow> ARC_run s trace = Inr ss \<Longrightarrow>
     sorted (map arc_p (s # ss))"
proof (induction trace arbitrary: s ss)
  case Nil
  then show ?case by simp
next
  case (Cons item rest)
  from Cons.prems(3) obtain hit s1 ss1 where a: "ARC_access s item = Inr (hit, s1)"
    and r: "ARC_run s1 rest = Inr ss1" and ss: "ss = s1 # ss1"
    by (auto simp: bindE_eq_Inr)
  from Cons.prems(2) a have mem: "item \<in> set (arc_t1 s) \<or> item \<in> set (arc_t2 s) \<or> item \<in> set (arc_b1 s)"
    and m1: "misses_only_in_b1 s1 rest" by simp_all
  from ARC_access_inv[OF a Cons.prems(1)] have inv1: "ARC_inv s1" .
  from Cons.IH[OF inv1 m1 r] have "sorted (map arc_p (s1 # ss1))" .
  with ARC_access_p_mono[OF a Cons.prems(1) mem] show ?case by (auto simp: ss)
qed

text \<open>
  C7: for the adaptive policy with positive capacity, 0 <= p <= capacity in every
  reachable state, and along any access sequence in which every miss is a ghost hit in
  B1 the value of p never decreases.
\<close>

theorem arc_target_bounded_monotone:
  assumes "0 < cap" and "reachable (ARC_params cap) (ARC s)"
  shows "0 \<le> arc_p s \<and> arc_p s \<le> cap \<and>
         (misses_only_in_b1 s trace \<longrightarrow> ARC_run s trace = Inr ss \<longrightarrow>
            sorted (map arc_p (s # ss)) \<and> (\<forall>s' \<in> set ss. 0 \<le> arc_p s' \<and> arc_p s' \<le> cap))"
proof -
  from reachable_size_inv[OF assms(2)] assms(1) have inv: "ARC_inv s" by simp
  from reachable_built_with[OF assms(2)] have c: "arc_c s = cap" by simp
  have bound: "0 \<le> arc_p s' \<and> arc_p s' \<le> cap"
    if "ARC_inv s'" "arc_c s' = cap" for s'
    using that by (simp add: ARC_inv_def)
  have states: "\<forall>s' \<in> set ss. ARC_inv s' \<and> arc_c s' = cap"
    if "ARC_run s0 trace = Inr ss" "ARC_inv s0" "arc_c s0 = cap" for s0 trace ss
    using that
  proof (induction trace arbitrary: s0 ss)
    case Nil
    then show ?case by simp
  next
    case (Cons item rest)
    from Cons.prems(1) obtain hit s1 ss1 where a: "ARC_access s0 item = Inr (hit, s1)"
      and r: "ARC_run s1 rest = Inr ss1" and ss: "ss = s1 # ss1"
      by (auto simp: bindE_eq_Inr)
    from ARC_access_inv[OF a Cons.prems(2)] have i1: "ARC_inv s1" .
    from ARC_access_counters[OF a] Cons.prems(3) have c1: "arc_c s1 = cap" by simp
    from Cons.IH[OF r i1 c1] i1 c1 show ?case by (simp add: ss)
  qed
  from bound[OF inv c] ARC_run_p_sorted[OF inv] states[OF _ inv c] bound
  show ?thesis by blast
qed

theorem arc_target_bounded_monotone_witness:
  "\<exists>outs s ss. run_trace (construct (ARC_params 2)) [1, 1, 2, 3] = Inr (outs, ARC s) \<and>
     misses_only_in_b1 s [2, 2] \<and> ARC_run s [2, 2] = Inr ss \<and>
     map arc_p (s # ss) = [0, 1, 1] \<and> sorted (map arc_p (s # ss))"
proof -
  have "\<exists>outs s ss. run_trace (construct (ARC_params 2)) [1, 1, 2, 3] = Inr (outs, ARC s) \<and>
     misses_only_in_b1 s [2, 2] \<and> ARC_run s [2, 2] = Inr ss \<and>
     map arc_p (s # ss) = [0, 1, 1]"
    by (simp add: arc_eval)
  then obtain outs s ss where r: "run_trace (construct (ARC_params 2)) [1, 1, 2, 3] = Inr (outs, ARC s)"
    and m: "misses_only_in_b1 s [2, 2]" and rr: "ARC_run s [2, 2] = Inr ss"
    and p: "map arc_p (s # ss) = [0, 1, 1]" by (elim exE conjE)
  from run_trace_reachable[OF reachable_init r] have re: "reachable (ARC_params 2) (ARC s)" .
  have pos: "(0::int) < 2" by simp
  from arc_target_bounded_monotone[OF pos re, of "[2, 2]" ss] m rr
  have "sorted (map arc_p (s # ss))" by blast
  with r m rr p show ?thesis by (intro exI conjI)
qed

section \<open>A ghost hit that raises\<close>

text \<open>
  C3 at the adaptive policy: after the accesses 1, 1, 2, 2 on a cache of capacity 1,
  item 1 is not resident (it is the only entry of the ghost list B2), and accessing it
  raises KeyError instead of returning false with the item resident. The replacement
  step moves item 2 from T2 into B2, the cap on B2 then drops the oldest ghost, item 1
  itself, and \<open>del self.b2[item]\<close> fails. The same happens for capacity 2.
\<close>

theorem arc_ghost_hit_raises:
  "(\<exists>outs s. run_trace (construct (ARC_params 1)) [1, 1, 2, 2] = Inr (outs, ARC s) \<and>
      1 \<notin> resident (ARC s) \<and> arc_b2 s = [1] \<and> access (ARC s) 1 = Inl KeyError) \<and>
   (\<exists>outs s. run_trace (construct (ARC_params 2)) [1, 1, 2, 2, 3, 3, 4, 4] = Inr (outs, ARC s) \<and>
      1 \<notin> resident (ARC s) \<and> arc_b2 s = [1, 2] \<and> access (ARC s) 1 = Inl KeyError)"
  by (simp add: arc_eval)

end
